theory Spec2Isabelle
  imports
    Complex_Main
    "HOL-Library.Log_Nat"
    "HOL-Library.Sublist"
    "HOL-Library.List_Lexorder"
    "HOL-Library.Char_ord"
begin

section \<open>Python exceptions\<close>

text \<open>
  The exceptions the modelled code raises or catches. \<open>ExternalServiceAPIError\<close>,
  \<open>ValueError\<close> and \<open>RuntimeError\<close> are the three classes caught around the language
  model call; \<open>TypeError\<close> is what comparing a complex number raises, \<open>KeyError\<close> what
  reading a missing dictionary key raises, \<open>IndexError\<close> what indexing an empty list
  raises, and \<open>UnboundLocalError\<close> what reading a local name raises before it is bound.
\<close>

datatype py_error =
  ValueError | TypeError | KeyError | IndexError | RuntimeError | ExternalServiceAPIError
  | UnboundLocalError

section \<open>The LRU cache (\<open>profile_memory/util/lru_cache.py\<close>)\<close>

text \<open>
  \<open>LRUCache\<close> keeps a dictionary from keys to nodes and a doubly linked list of the nodes
  between two sentinels: \<open>head.next\<close> is the most recently used node, \<open>tail.prev\<close> the
  least recently used one. The model keeps the dictionary as a map from keys to the value
  stored in the key's node, and the linked list as the list of the nodes' keys read from
  \<open>head.next\<close> to \<open>tail.prev\<close>. Unlinking a node is removing its key from that list,
  linking it after \<open>head\<close> is consing it.
\<close>

record ('k, 'v) lru_cache =
  capacity :: int
  cache :: "'k \<rightharpoonup> 'v"
  links :: "'k list"

definition LRUCache :: "int \<Rightarrow> py_error + ('k, 'v) lru_cache" where
  "LRUCache cap =
     (if cap \<le> 0 then Inl ValueError
      else Inr \<lparr>capacity = cap, cache = Map.empty, links = []\<rparr>)"

definition remove_node :: "'k \<Rightarrow> 'k list \<Rightarrow> 'k list" where
  "remove_node k xs = remove1 k xs"

definition add_to_front :: "'k \<Rightarrow> 'k list \<Rightarrow> 'k list" where
  "add_to_front k xs = k # xs"

definition erase :: "'k \<Rightarrow> ('k, 'v) lru_cache \<Rightarrow> ('k, 'v) lru_cache" where
  "erase key c =
     (if key \<in> dom (cache c)
      then c\<lparr>links := remove_node key (links c), cache := (cache c)(key := None)\<rparr>
      else c)"

text \<open>\<open>get\<close> returns the value (\<open>None\<close> on a miss) and the cache after the promotion.\<close>

definition get :: "'k \<Rightarrow> ('k, 'v) lru_cache \<Rightarrow> 'v option \<times> ('k, 'v) lru_cache" where
  "get key c =
     (if key \<in> dom (cache c)
      then (cache c key, c\<lparr>links := add_to_front key (remove_node key (links c))\<rparr>)
      else (None, c))"

definition put :: "'k \<Rightarrow> 'v \<Rightarrow> ('k, 'v) lru_cache \<Rightarrow> ('k, 'v) lru_cache" where
  "put key v c =
     (if key \<in> dom (cache c)
      then c\<lparr>cache := (cache c)(key \<mapsto> v),
             links := add_to_front key (remove_node key (links c))\<rparr>
      else
        let c1 =
          (if int (card (dom (cache c))) \<ge> capacity c
           then (if links c \<noteq> []
                 then c\<lparr>links := remove_node (last (links c)) (links c),
                        cache := (cache c)(last (links c) := None)\<rparr>
                 else c)
           else c)
        in c1\<lparr>cache := (cache c1)(key \<mapsto> v), links := add_to_front key (links c1)\<rparr>)"

subsection \<open>Access sequences\<close>

datatype ('k, 'v) cache_op = Get 'k | Put 'k 'v | Erase 'k

fun cache_step :: "('k, 'v) lru_cache \<Rightarrow> ('k, 'v) cache_op \<Rightarrow> ('k, 'v) lru_cache" where
  "cache_step c (Get k) = snd (get k c)"
| "cache_step c (Put k v) = put k v c"
| "cache_step c (Erase k) = erase k c"

fun cache_run :: "('k, 'v) lru_cache \<Rightarrow> ('k, 'v) cache_op list \<Rightarrow> ('k, 'v) lru_cache" where
  "cache_run c [] = c"
| "cache_run c (x # xs) = cache_run (cache_step c x) xs"

text \<open>
  Modelled from the spec: the resident entries of an LRU cache of capacity \<open>n\<close>, most
  recently used first, after the operations \<open>ops\<close>, starting from the entries \<open>r\<close>
  (``recency is updated on both \<open>get\<close> and \<open>put\<close> (hit promotes); on \<open>put\<close> when full,
  the least-recently-used entry is evicted''). A \<open>put\<close> of a resident key, or a \<open>get\<close> that
  hits, moves the entry to the front; a \<open>put\<close> of a new key puts it in front, after the
  last entry is dropped when \<open>n\<close> entries are resident; an \<open>erase\<close> takes the entry out.
  Nothing of the cache's code enters.
\<close>

definition without :: "'k \<Rightarrow> ('k \<times> 'v) list \<Rightarrow> ('k \<times> 'v) list" where
  "without k r = filter (\<lambda>p. fst p \<noteq> k) r"

fun resident_step :: "nat \<Rightarrow> ('k \<times> 'v) list \<Rightarrow> ('k, 'v) cache_op \<Rightarrow> ('k \<times> 'v) list" where
  "resident_step n r (Put k v) =
     (k, v) # (if k \<in> fst ` set r then without k r
               else if n \<le> length r then butlast r else r)"
| "resident_step n r (Get k) =
     (case map_of r k of Some v \<Rightarrow> (k, v) # without k r | None \<Rightarrow> r)"
| "resident_step n r (Erase k) = without k r"

fun resident :: "nat \<Rightarrow> ('k \<times> 'v) list \<Rightarrow> ('k, 'v) cache_op list \<Rightarrow> ('k \<times> 'v) list" where
  "resident n r [] = r"
| "resident n r (x # ops) = resident n (resident_step n r x) ops"

text \<open>
  Modelled from the spec: the distinct keys that were touched and not erased afterwards,
  most recently touched first, when \<open>ops\<close> runs from the resident entries \<open>r\<close> with \<open>t\<close>
  the list so far (``the N most recently touched distinct keys among those touched and
  not subsequently erased, where a touch is a put or a get that hits''). A \<open>get\<close> hits when
  its key is resident.
\<close>

fun touched_step :: "('k \<times> 'v) list \<Rightarrow> 'k list \<Rightarrow> ('k, 'v) cache_op \<Rightarrow> 'k list" where
  "touched_step r t (Put k v) = k # removeAll k t"
| "touched_step r t (Get k) = (if k \<in> fst ` set r then k # removeAll k t else t)"
| "touched_step r t (Erase k) = removeAll k t"

fun touched :: "nat \<Rightarrow> ('k \<times> 'v) list \<Rightarrow> 'k list \<Rightarrow> ('k, 'v) cache_op list \<Rightarrow> 'k list" where
  "touched n r t [] = t"
| "touched n r t (x # ops) = touched n (resident_step n r x) (touched_step r t x) ops"

text \<open>
  The same list with the hits as the cache \<open>c\<close> decides them, for the proofs.
\<close>

fun touched_by :: "('k, 'v) lru_cache \<Rightarrow> 'k list \<Rightarrow> ('k, 'v) cache_op list \<Rightarrow> 'k list" where
  "touched_by c r [] = r"
| "touched_by c r (Put k v # ops) = touched_by (put k v c) (k # removeAll k r) ops"
| "touched_by c r (Get k # ops) =
     touched_by (snd (get k c)) (if k \<in> dom (cache c) then k # removeAll k r else r) ops"
| "touched_by c r (Erase k # ops) = touched_by (erase k c) (removeAll k r) ops"

fun is_erase :: "('k, 'v) cache_op \<Rightarrow> bool" where
  "is_erase (Erase k) = True"
| "is_erase _ = False"

text \<open>
  The representation invariant: the linked list holds exactly the dictionary's keys, each
  once, and no more than \<open>capacity\<close> of them.
\<close>

definition lru_inv :: "('k, 'v) lru_cache \<Rightarrow> bool" where
  "lru_inv c \<longleftrightarrow>
     0 < capacity c \<and> distinct (links c) \<and> set (links c) = dom (cache c) \<and>
     int (length (links c)) \<le> capacity c"

text \<open>
  How the cache relates to a list \<open>r\<close> of touched keys (most recent first): the linked list
  is a prefix of it; and the cache is as full as \<open>r\<close> allows.
\<close>

definition lru_rel :: "('k, 'v) lru_cache \<Rightarrow> 'k list \<Rightarrow> bool" where
  "lru_rel c r \<longleftrightarrow> lru_inv c \<and> distinct r \<and> prefix (links c) r"

definition lru_filled :: "('k, 'v) lru_cache \<Rightarrow> 'k list \<Rightarrow> bool" where
  "lru_filled c r \<longleftrightarrow> length (links c) = min (nat (capacity c)) (length r)"

text \<open>
  The cache \<open>c\<close> holds exactly the entries \<open>r\<close>, in this order, and has capacity \<open>n\<close>.
\<close>

definition holds :: "nat \<Rightarrow> ('k, 'v) lru_cache \<Rightarrow> ('k \<times> 'v) list \<Rightarrow> bool" where
  "holds n c r \<longleftrightarrow>
     0 < n \<and> capacity c = int n \<and> links c = map fst r \<and> cache c = map_of r \<and>
     distinct (map fst r) \<and> length r \<le> n"

subsection \<open>The cache as objects: nodes, pointers and the dictionary\<close>

text \<open>
  The same class with its object graph spelled out, to justify reading the linked list as
  a list. A \<open>Node\<close> lives at an address of a store; \<open>prev\<close> and \<open>next\<close> are addresses or
  \<open>None\<close>; the two sentinels are \<open>Node(None, None)\<close>, so keys and values of nodes are
  optional. The dictionary maps a key to the address of its node. Creating a node
  takes the next free address; a node that is unlinked stays in the store.
\<close>

type_synonym addr = nat

record ('k, 'v) node =
  node_key :: "'k option"
  node_value :: "'v option"
  node_prev :: "addr option"
  node_next :: "addr option"

definition Node :: "'k option \<Rightarrow> 'v option \<Rightarrow> ('k, 'v) node" where
  "Node k v = \<lparr>node_key = k, node_value = v, node_prev = None, node_next = None\<rparr>"

record ('k, 'v) lru_object =
  object_capacity :: int
  object_cache :: "'k \<rightharpoonup> addr"
  object_head :: addr
  object_tail :: addr
  store :: "addr \<Rightarrow> ('k, 'v) node"
  next_free :: addr

definition LRUCache_object :: "int \<Rightarrow> py_error + ('k, 'v) lru_object" where
  "LRUCache_object cap =
     (if cap \<le> 0 then Inl ValueError
      else
        let st0 = (\<lambda>a. Node None None);
            st1 = st0(0 := (st0 0)\<lparr>node_next := Some 1\<rparr>);
            st2 = st1(1 := (st1 1)\<lparr>node_prev := Some 0\<rparr>)
        in Inr \<lparr>object_capacity = cap, object_cache = Map.empty, object_head = 0,
                object_tail = 1, store = st2, next_free = 2\<rparr>)"

definition object_remove_node :: "addr \<Rightarrow> ('k, 'v) lru_object \<Rightarrow> ('k, 'v) lru_object" where
  "object_remove_node a s =
     (case (node_prev (store s a), node_next (store s a)) of
        (Some prev_node, Some next_node) \<Rightarrow>
          let st1 = (store s)(prev_node := (store s prev_node)\<lparr>node_next := Some next_node\<rparr>);
              st2 = st1(next_node := (st1 next_node)\<lparr>node_prev := Some prev_node\<rparr>)
          in s\<lparr>store := st2\<rparr>
      | _ \<Rightarrow> s)"

definition object_add_to_front :: "addr \<Rightarrow> ('k, 'v) lru_object \<Rightarrow> ('k, 'v) lru_object" where
  "object_add_to_front a s =
     (let st1 = (store s)(a := (store s a)\<lparr>node_prev := Some (object_head s)\<rparr>);
          st2 = st1(a := (st1 a)\<lparr>node_next := node_next (st1 (object_head s))\<rparr>);
          st3 = (case node_next (st2 (object_head s)) of
                   Some first \<Rightarrow> st2(first := (st2 first)\<lparr>node_prev := Some a\<rparr>)
                 | None \<Rightarrow> st2);
          st4 = st3(object_head s := (st3 (object_head s))\<lparr>node_next := Some a\<rparr>)
      in s\<lparr>store := st4\<rparr>)"

definition object_erase :: "'k \<Rightarrow> ('k, 'v) lru_object \<Rightarrow> ('k, 'v) lru_object" where
  "object_erase key s =
     (case object_cache s key of
        Some a \<Rightarrow> (object_remove_node a s)\<lparr>object_cache := (object_cache s)(key := None)\<rparr>
      | None \<Rightarrow> s)"

definition object_get :: "'k \<Rightarrow> ('k, 'v) lru_object \<Rightarrow> 'v option \<times> ('k, 'v) lru_object" where
  "object_get key s =
     (case object_cache s key of
        Some a \<Rightarrow>
          let s1 = object_add_to_front a (object_remove_node a s)
          in (node_value (store s1 a), s1)
      | None \<Rightarrow> (None, s))"

text \<open>
  \<open>put\<close>. Deleting \<open>lru_node.key\<close> from the dictionary raises \<open>KeyError\<close> when the
  dictionary does not hold it.
\<close>

definition object_evict :: "('k, 'v) lru_object \<Rightarrow> py_error + ('k, 'v) lru_object" where
  "object_evict s =
     (if int (card (dom (object_cache s))) \<ge> object_capacity s then
        (case node_prev (store s (object_tail s)) of
           Some lru_node \<Rightarrow>
             if lru_node \<noteq> object_head s then
               (let s1 = object_remove_node lru_node s
                in case node_key (store s1 lru_node) of
                     Some k \<Rightarrow>
                       if k \<in> dom (object_cache s1)
                       then Inr (s1\<lparr>object_cache := (object_cache s1)(k := None)\<rparr>)
                       else Inl KeyError
                   | None \<Rightarrow> Inl KeyError)
             else Inr s
         | None \<Rightarrow> Inr s)
      else Inr s)"

definition object_put :: "'k \<Rightarrow> 'v \<Rightarrow> ('k, 'v) lru_object \<Rightarrow> py_error + ('k, 'v) lru_object" where
  "object_put key v s =
     (case object_cache s key of
        Some a \<Rightarrow>
          let s1 = s\<lparr>store := (store s)(a := (store s a)\<lparr>node_value := Some v\<rparr>)\<rparr>
          in Inr (object_add_to_front a (object_remove_node a s1))
      | None \<Rightarrow>
          (case object_evict s of
             Inl e \<Rightarrow> Inl e
           | Inr s1 \<Rightarrow>
               let new_node = next_free s1;
                   s2 = s1\<lparr>store := (store s1)(new_node := Node (Some key) (Some v)),
                           next_free := Suc new_node\<rparr>;
                   s3 = s2\<lparr>object_cache := (object_cache s2)(key \<mapsto> new_node)\<rparr>
               in Inr (object_add_to_front new_node s3)))"

text \<open>
  When an object state \<open>s\<close> represents a list-level cache: the nodes at the addresses
  \<open>as\<close> are linked between the sentinels, in this order, by \<open>next\<close> and back by \<open>prev\<close>;
  the dictionary holds exactly these nodes, each under its key; and the list-level cache
  has the same capacity, the keys of the nodes as its list, and their values.
\<close>

definition linked :: "(addr \<Rightarrow> ('k, 'v) node) \<Rightarrow> addr \<Rightarrow> addr \<Rightarrow> bool" where
  "linked st a b \<longleftrightarrow> node_next (st a) = Some b \<and> node_prev (st b) = Some a"

definition chained :: "('k, 'v) lru_object \<Rightarrow> addr list \<Rightarrow> bool" where
  "chained s as \<longleftrightarrow>
     distinct (object_head s # as @ [object_tail s]) \<and>
     successively (linked (store s)) (object_head s # as @ [object_tail s]) \<and>
     (\<forall>a\<in>set (object_head s # as @ [object_tail s]). a < next_free s)"

definition represents ::
  "('k, 'v) lru_object \<Rightarrow> addr list \<Rightarrow> ('k, 'v) lru_cache \<Rightarrow> bool" where
  "represents s as c \<longleftrightarrow>
     chained s as \<and>
     (\<forall>a\<in>set as. \<exists>k. node_key (store s a) = Some k \<and> object_cache s k = Some a) \<and>
     (\<forall>k a. object_cache s k = Some a \<longrightarrow> a \<in> set as \<and> node_key (store s a) = Some k) \<and>
     (\<forall>a\<in>set as. node_value (store s a) \<noteq> None) \<and>
     capacity c = object_capacity s \<and>
     links c = map (\<lambda>a. the (node_key (store s a))) as \<and>
     cache c = (\<lambda>k. case object_cache s k of None \<Rightarrow> None | Some a \<Rightarrow> node_value (store s a))"

text \<open>Two object states that differ in \<open>prev\<close> and \<open>next\<close> pointers only.\<close>

definition relinked :: "('k, 'v) lru_object \<Rightarrow> ('k, 'v) lru_object \<Rightarrow> bool" where
  "relinked s s' \<longleftrightarrow>
     object_capacity s' = object_capacity s \<and> object_cache s' = object_cache s \<and>
     object_head s' = object_head s \<and> object_tail s' = object_tail s \<and>
     next_free s' = next_free s \<and>
     (\<forall>x. node_key (store s' x) = node_key (store s x) \<and>
          node_value (store s' x) = node_value (store s x))"

section \<open>The update tracker (\<open>ProfileUpdateTracker\<close>, \<open>ProfileUpdateTrackerManager\<close>)\<close>

text \<open>
  A point in time is a real number of seconds; \<open>datetime.datetime.now()\<close> is the
  parameter \<open>now\<close> of every operation that reads the clock, and the difference of two
  points in time is \<open>total_seconds()\<close> of their \<open>timedelta\<close>.
\<close>

record tracker =
  user :: string
  message_limit :: int
  time_limit :: real
  message_count :: int
  first_updated :: "real option"

definition ProfileUpdateTracker :: "string \<Rightarrow> int \<Rightarrow> real \<Rightarrow> tracker" where
  "ProfileUpdateTracker u msg_limit time_limit_sec =
     \<lparr>user = u, message_limit = msg_limit, time_limit = time_limit_sec,
      message_count = 0, first_updated = None\<rparr>"

definition mark_update :: "real \<Rightarrow> tracker \<Rightarrow> tracker" where
  "mark_update now t =
     (let t1 = t\<lparr>message_count := message_count t + 1\<rparr>
      in if first_updated t1 = None then t1\<lparr>first_updated := Some now\<rparr> else t1)"

definition seconds_from_first_update :: "real \<Rightarrow> tracker \<Rightarrow> real option" where
  "seconds_from_first_update now t =
     (case first_updated t of None \<Rightarrow> None | Some f \<Rightarrow> Some (now - f))"

definition reset :: "tracker \<Rightarrow> tracker" where
  "reset t = t\<lparr>message_count := 0, first_updated := None\<rparr>"

definition should_update :: "real \<Rightarrow> tracker \<Rightarrow> bool" where
  "should_update now t =
     (if message_count t = 0 then False
      else
        let elapsed = seconds_from_first_update now t;
            exceed_time_limit = (case elapsed of None \<Rightarrow> False | Some e \<Rightarrow> e \<ge> time_limit t);
            exceed_msg_limit = (message_count t \<ge> message_limit t)
        in exceed_time_limit \<or> exceed_msg_limit)"

text \<open>
  The manager's dictionary of trackers is an association list in insertion order, the
  order in which Python iterates over a \<open>dict\<close>: assigning to a new key appends, assigning
  to a present key keeps its place.
\<close>

fun dict_set :: "'k \<Rightarrow> 'v \<Rightarrow> ('k \<times> 'v) list \<Rightarrow> ('k \<times> 'v) list" where
  "dict_set k v [] = [(k, v)]"
| "dict_set k v ((k', v') # kvs) =
     (if k' = k then (k, v) # kvs else (k', v') # dict_set k v kvs)"

record tracker_manager =
  trackers :: "(string \<times> tracker) list"
  manager_message_limit :: int
  manager_time_limit_sec :: real

definition ProfileUpdateTrackerManager :: "int \<Rightarrow> real \<Rightarrow> tracker_manager" where
  "ProfileUpdateTrackerManager msg_limit time_limit_sec =
     \<lparr>trackers = [], manager_message_limit = msg_limit, manager_time_limit_sec = time_limit_sec\<rparr>"

definition new_tracker :: "tracker_manager \<Rightarrow> string \<Rightarrow> tracker" where
  "new_tracker m u =
     ProfileUpdateTracker u (manager_message_limit m) (manager_time_limit_sec m)"

text \<open>
  \<open>mark_update\<close> of the manager. The second lookup cannot miss; the model returns the
  manager unchanged where Python would raise \<open>KeyError\<close>.
\<close>

definition manager_mark_update :: "real \<Rightarrow> string \<Rightarrow> tracker_manager \<Rightarrow> tracker_manager" where
  "manager_mark_update now u m =
     (let ts = (if map_of (trackers m) u = None
                then dict_set u (new_tracker m u) (trackers m)
                else trackers m)
      in case map_of ts u of
           None \<Rightarrow> m
         | Some t \<Rightarrow> m\<lparr>trackers := dict_set u (mark_update now t) ts\<rparr>)"

text \<open>
  The loop of \<open>get_users_to_update\<close> over the dictionary's items: the users whose tracker
  fires, in dictionary order, and the trackers after the resets. The whole call reads the
  clock as one \<open>now\<close>.
\<close>

fun drain :: "real \<Rightarrow> (string \<times> tracker) list \<Rightarrow> string list \<times> (string \<times> tracker) list" where
  "drain now [] = ([], [])"
| "drain now ((u, t) # rest) =
     (let (ret, rest') = drain now rest
      in if should_update now t then (u # ret, (u, reset t) # rest')
         else (ret, (u, t) # rest'))"

definition get_users_to_update :: "real \<Rightarrow> tracker_manager \<Rightarrow> string list \<times> tracker_manager" where
  "get_users_to_update now m =
     (let (ret, ts) = drain now (trackers m) in (ret, m\<lparr>trackers := ts\<rparr>))"

text \<open>
  The states a manager created with limits \<open>M\<close> and \<open>T\<close> can be in: any interleaving of
  marks and queries at any times.
\<close>

inductive manager_reachable :: "int \<Rightarrow> real \<Rightarrow> tracker_manager \<Rightarrow> bool" where
  created: "manager_reachable M T (ProfileUpdateTrackerManager M T)"
| marked: "manager_reachable M T m \<Longrightarrow> manager_reachable M T (manager_mark_update now u m)"
| queried: "manager_reachable M T m \<Longrightarrow> manager_reachable M T (snd (get_users_to_update now m))"

definition tracker_ok :: "int \<Rightarrow> real \<Rightarrow> string \<times> tracker \<Rightarrow> bool" where
  "tracker_ok M T ut \<longleftrightarrow>
     user (snd ut) = fst ut \<and> message_limit (snd ut) = M \<and> time_limit (snd ut) = T \<and>
     0 \<le> message_count (snd ut) \<and>
     (message_count (snd ut) = 0 \<longleftrightarrow> first_updated (snd ut) = None)"

definition manager_inv :: "int \<Rightarrow> real \<Rightarrow> tracker_manager \<Rightarrow> bool" where
  "manager_inv M T m \<longleftrightarrow>
     manager_message_limit m = M \<and> manager_time_limit_sec m = T \<and>
     distinct (map fst (trackers m)) \<and> list_all (tracker_ok M T) (trackers m)"

section \<open>The range filter (\<open>ProfileMemory.range_filter\<close>)\<close>

text \<open>
  Similarity scores are Python floats, that is IEEE 754 doubles: every arithmetic
  operation returns its exact result rounded to the nearest double, ties to the even
  significand. The model computes with real numbers and applies the rounding \<open>fl\<close> after
  every operation. With \<open>fl = binary64\<close> this is the arithmetic of the code, in which only
  the exponent range is unbounded (no overflow to infinity, no subnormal numbers);
  with \<open>fl = exact\<close>, no rounding, it is the arithmetic that the docstring and the
  specification reason in.
\<close>

subsection \<open>Doubles\<close>

text \<open>Rounding a real number to the nearest integer, a tie to the even one.\<close>

definition rne :: "real \<Rightarrow> int" where
  "rne y =
     (let f = \<lfloor>y\<rfloor>; r = y - of_int f
      in if r < 1 / 2 then f else if 1 / 2 < r then f + 1 else if even f then f else f + 1)"

text \<open>
  The binary exponent of a number that is not zero, \<open>\<lfloor>log\<^sub>2 \<bar>x\<bar>\<rfloor>\<close>, computed on integers:
  on the integer part of \<open>\<bar>x\<bar>\<close> when \<open>1 \<le> \<bar>x\<bar>\<close>, and on that of its inverse otherwise.
\<close>

definition exponent :: "real \<Rightarrow> int" where
  "exponent x =
     (if 1 \<le> \<bar>x\<bar> then int (floorlog 2 (nat \<lfloor>\<bar>x\<bar>\<rfloor>)) - 1
      else - int (floorlog 2 (nat (\<lceil>1 / \<bar>x\<bar>\<rceil> - 1))))"

text \<open>The nearest double: a significand of 53 bits at the number's exponent.\<close>

definition binary64 :: "real \<Rightarrow> real" where
  "binary64 x =
     (if x = 0 then 0
      else let u = 2 powi (exponent x - 52) in of_int (rne (x / u)) * u)"

definition exact :: "real \<Rightarrow> real" where
  "exact x = x"

text \<open>
  \<open>x ** 0.5\<close> for a float \<open>x\<close> that is not negative, taken to be the correctly rounded
  square root.
\<close>

definition root :: "(real \<Rightarrow> real) \<Rightarrow> real \<Rightarrow> real" where
  "root fl x = fl (sqrt x)"

subsection \<open>The filter\<close>

text \<open>\<open>itertools.accumulate\<close>: the running sums of a list.\<close>

fun accumulate_from :: "(real \<Rightarrow> real) \<Rightarrow> real \<Rightarrow> real list \<Rightarrow> real list" where
  "accumulate_from fl acc [] = []"
| "accumulate_from fl acc (x # xs) = fl (acc + x) # accumulate_from fl (fl (acc + x)) xs"

fun accumulate :: "(real \<Rightarrow> real) \<Rightarrow> real list \<Rightarrow> real list" where
  "accumulate fl [] = []"
| "accumulate fl (x # xs) = x # accumulate_from fl x xs"

text \<open>
  One element of the generator inside \<open>max\<close>:
  \<open>d if ((sq - s * s / d) / d) ** 0.5 < max_std else -1\<close>. A negative float raised to
  the power \<open>0.5\<close> is a complex number in Python, and comparing it with \<open><\<close> raises
  \<open>TypeError\<close>. (In exact arithmetic the radicand is a variance and never negative; in
  doubles it is negative for some inputs, three scores \<open>0.1\<close> for one.)
\<close>

definition candidate :: "(real \<Rightarrow> real) \<Rightarrow> real \<Rightarrow> real \<times> real \<times> nat \<Rightarrow> py_error + int" where
  "candidate fl max_std = (\<lambda>(s, sq, d).
     let radicand = fl (fl (sq - fl (fl (s * s) / real d)) / real d)
     in if radicand < 0 then Inl TypeError
        else Inr (if root fl radicand < max_std then int d else - 1))"

text \<open>Running a generator whose elements may raise: the first exception ends it.\<close>

fun collect :: "(py_error + 'a) list \<Rightarrow> py_error + 'a list" where
  "collect [] = Inr []"
| "collect (Inl e # rs) = Inl e"
| "collect (Inr x # rs) = (case collect rs of Inl e \<Rightarrow> Inl e | Inr xs \<Rightarrow> Inr (x # xs))"

text \<open>\<open>max\<close> of a non-empty sequence of integers.\<close>

definition py_max :: "int list \<Rightarrow> int" where
  "py_max xs = foldl max (hd xs) (tl xs)"

definition range_filter ::
  "(real \<Rightarrow> real) \<Rightarrow> (real \<times> 'a) list \<Rightarrow> real \<Rightarrow> real \<Rightarrow> py_error + 'a list" where
  "range_filter fl arr max_range max_std =
     (if length arr = 0 then Inr []
      else
        let new_min = fl (fst (arr ! 0) - max_range);
            k = map fst arr;
            v = map snd arr;
            sums1 = accumulate fl k;
            square_sums = accumulate fl (map (\<lambda>i. fl (i * i)) k);
            divs = [1..<length arr + 1]
        in case collect (map (candidate fl max_std) (zip sums1 (zip square_sums divs))) of
             Inl e \<Rightarrow> Inl e
           | Inr cands \<Rightarrow>
               let take_n = py_max cands
               in Inr [val. (f, val, i) \<leftarrow> zip k (zip v [0..<nat take_n]), f > new_min])"

text \<open>
  The population standard deviation of a non-empty list of scores, as the docstring and
  the specification mean it: the root of the mean squared distance from the mean.
\<close>

definition mean :: "real list \<Rightarrow> real" where
  "mean xs = sum_list xs / real (length xs)"

definition pstdev :: "real list \<Rightarrow> real" where
  "pstdev xs = sqrt (sum_list (map (\<lambda>x. (x - mean xs) ^ 2) xs) / real (length xs))"

text \<open>Scores in descending order, as \<open>semantic_search\<close> returns them.\<close>

definition descending :: "real list \<Rightarrow> bool" where
  "descending xs \<longleftrightarrow> sorted_wrt (\<lambda>a b. a \<ge> b) xs"

text \<open>
  The value of \<open>take\<close> in \<open>range_filter\<close> for the scores \<open>k\<close>, without rounding: the greatest length of a
  non-empty prefix whose deviation is below \<open>max_std\<close>, or \<open>-1\<close> when there is none.
\<close>

definition take_len :: "real \<Rightarrow> real list \<Rightarrow> int" where
  "take_len max_std k =
     Max (set (map (\<lambda>i. if pstdev (take (Suc i) k) < max_std then int (Suc i) else - 1)
                 [0..<length k]))"

section \<open>Isolation maps and their JSON serialisation\<close>

text \<open>
  An isolation map is a Python \<open>dict\<close> from strings to \<open>bool | int | float | str\<close>. The model
  keeps it as an association list in insertion order with distinct keys, and leaves float
  values out. Python compares \<open>True\<close> equal to \<open>1\<close> and \<open>False\<close> equal to \<open>0\<close>; \<open>py_eq\<close> is
  its \<open>==\<close> on these values.
\<close>

datatype iso_value = VBool bool | VInt int | VStr string

type_synonym isolations = "(string \<times> iso_value) list"

fun py_eq :: "iso_value \<Rightarrow> iso_value \<Rightarrow> bool" where
  "py_eq (VStr a) (VStr b) = (a = b)"
| "py_eq (VStr a) _ = False"
| "py_eq _ (VStr b) = False"
| "py_eq (VInt a) (VInt b) = (a = b)"
| "py_eq (VInt a) (VBool b) = (a = (if b then 1 else 0))"
| "py_eq (VBool a) (VInt b) = ((if a then 1 else 0) = b)"
| "py_eq (VBool a) (VBool b) = (a = b)"

subsection \<open>\<open>json.dumps\<close> on an isolation map\<close>

text \<open>
  \<open>json.dumps\<close> with its default separators and \<open>ensure_ascii=True\<close>. A character is one
  code point below 256. Inside a string, backslash and double quote are escaped, the five
  control characters with a short escape get it, and every other character outside
  \<open>' '\<close> to \<open>'~'\<close> becomes \<open>\u00xx\<close>.
\<close>

definition hex_digit :: "nat \<Rightarrow> char" where
  "hex_digit n = (''0123456789abcdef'' ! (n mod 16))"

definition escape_char :: "char \<Rightarrow> string" where
  "escape_char c =
     (if c = CHR 0x5C then [CHR 0x5C, CHR 0x5C]
      else if c = CHR 0x22 then [CHR 0x5C, CHR 0x22]
      else if c = CHR 0x08 then [CHR 0x5C, CHR ''b'']
      else if c = CHR 0x0C then [CHR 0x5C, CHR ''f'']
      else if c = CHR 0x0A then [CHR 0x5C, CHR ''n'']
      else if c = CHR 0x0D then [CHR 0x5C, CHR ''r'']
      else if c = CHR 0x09 then [CHR 0x5C, CHR ''t'']
      else if (of_char c :: nat) < 32 \<or> (of_char c :: nat) > 126
        then [CHR 0x5C, CHR ''u'', CHR ''0'', CHR ''0'',
              hex_digit ((of_char c :: nat) div 16), hex_digit (of_char c :: nat)]
      else [c])"

definition json_string :: "string \<Rightarrow> string" where
  "json_string s = [CHR 0x22] @ concat (map escape_char s) @ [CHR 0x22]"

text \<open>\<open>str\<close> of an integer: its decimal digits, with a minus sign when negative.\<close>

fun decimal :: "nat \<Rightarrow> string" where
  "decimal n =
     (if n < 10 then [''0123456789'' ! n]
      else decimal (n div 10) @ [''0123456789'' ! (n mod 10)])"

declare decimal.simps [simp del]

definition str_int :: "int \<Rightarrow> string" where
  "str_int i = (if i < 0 then CHR ''-'' # decimal (nat (- i)) else decimal (nat i))"

fun json_value :: "iso_value \<Rightarrow> string" where
  "json_value (VBool b) = (if b then ''true'' else ''false'')"
| "json_value (VInt i) = str_int i"
| "json_value (VStr s) = json_string s"

definition json_item :: "string \<times> iso_value \<Rightarrow> string" where
  "json_item kv = json_string (fst kv) @ '': '' @ json_value (snd kv)"

text \<open>\<open>sep.join(parts)\<close>.\<close>

fun join :: "string \<Rightarrow> string list \<Rightarrow> string" where
  "join sep [] = []"
| "join sep [x] = x"
| "join sep (x # y # ys) = x @ sep @ join sep (y # ys)"

text \<open>
  \<open>json.dumps(d, sort_keys=flag)\<close>: the items in insertion order, or sorted by key when
  \<open>sort_keys\<close> is set (strings compare by code point, lexicographically).
\<close>

definition json_dumps :: "bool \<Rightarrow> isolations \<Rightarrow> string" where
  "json_dumps sort_keys d =
     ''{'' @ join '', '' (map json_item (if sort_keys then sort_key fst d else d)) @ ''}''"

subsection \<open>Deriving the isolation map of a consolidated entry\<close>

text \<open>
  The loop of \<open>_deduplicate_profile\<close> over the cited rows:
  \<^verbatim>\<open>
  new_isolations = {}; bad = set()
  for i in associations:
      for k, v in i[1].items():
          old_val = new_isolations.get(k)
          if old_val is None: new_isolations[k] = v
          elif old_val != v: bad.add(k)
  for k in bad: del new_isolations[k]
  \<close>
\<close>

fun merge_item :: "isolations \<times> string set \<Rightarrow> string \<times> iso_value \<Rightarrow> isolations \<times> string set" where
  "merge_item (new_isolations, bad) (k, v) =
     (case map_of new_isolations k of
        None \<Rightarrow> (dict_set k v new_isolations, bad)
      | Some old_val \<Rightarrow>
          if \<not> py_eq old_val v then (new_isolations, insert k bad)
          else (new_isolations, bad))"

definition merge_row :: "isolations \<times> string set \<Rightarrow> int \<times> isolations \<Rightarrow> isolations \<times> string set" where
  "merge_row acc i = foldl merge_item acc (snd i)"

definition derive_isolations :: "(int \<times> isolations) list \<Rightarrow> isolations" where
  "derive_isolations associations =
     (let (new_isolations, bad) = foldl merge_row ([], {}) associations
      in filter (\<lambda>kv. fst kv \<notin> bad) new_isolations)"

text \<open>
  The keys of a list of items that occur with a value different from the first value the
  key occurs with.
\<close>

definition conflicted :: "isolations \<Rightarrow> string set" where
  "conflicted xs = {k. \<exists>v v0. (k, v) \<in> set xs \<and> map_of xs k = Some v0 \<and> \<not> py_eq v0 v}"

section \<open>The profile memory (\<open>ProfileMemory\<close>)\<close>

subsection \<open>Parsed JSON\<close>

text \<open>
  What \<open>json.loads\<close> returns. An object is an association list with distinct keys. A
  JSON number with a fraction or an exponent is a Python float; it is carried as a real
  number and never computed with.
\<close>

datatype json =
    JNull
  | JBool bool
  | JInt int
  | JFloat real
  | JStr string
  | JList "json list"
  | JDict "(string \<times> json) list"

text \<open>
  \<open>isinstance(x, int)\<close> holds for integers and, \<open>bool\<close> being a subclass of \<open>int\<close>, for
  \<open>True\<close> and \<open>False\<close>, which compare equal to 1 and 0.
\<close>

fun py_int :: "json \<Rightarrow> int option" where
  "py_int (JInt i) = Some i"
| "py_int (JBool b) = Some (if b then 1 else 0)"
| "py_int _ = None"

subsection \<open>The storage behind \<open>ProfileStorageBase\<close>\<close>

text \<open>
  Only the abstract base class of the storage is part of the sources. The model keeps
  the history table, whose rows the ingestion claims are about, and a journal of the
  write calls made on the profile-feature tables, oldest first. What the storage answers to
  a read of the feature tables is a parameter (see \<open>env\<close> below), a function of the
  storage state and so of every write journalled before.

  A history row is the mapping the storage returns: \<open>record["isolations"]\<close> is JSON text
  (the code applies \<open>json.loads\<close> to it).
\<close>

record history_row =
  row_id :: int
  row_user_id :: string
  row_content :: string
  row_metadata :: "(string \<times> string) list"
  row_isolations :: string
  row_is_ingested :: bool

datatype storage_call =
    AddProfileFeature string json json json "(string \<times> string) list" isolations "int list"
  | DeleteProfileFeature string json json "json option" isolations
  | DeleteProfileFeatureById int
  | DeleteProfile string isolations

record storage =
  history :: "history_row list"
  calls :: "storage_call list"

definition journal :: "storage_call \<Rightarrow> storage \<Rightarrow> storage" where
  "journal c st = st\<lparr>calls := calls st @ [c]\<rparr>"

text \<open>
  Modelled from the spec: \<open>add_history\<close>, whose implementation is not in the sources
  (``appends; returns the new row''). The new row gets the next free id, is not ingested,
  and holds the canonical serialisation of its isolation map (``canonical JSON serialization
  of isolations with sorted keys'').
\<close>

definition add_history ::
  "string \<Rightarrow> string \<Rightarrow> (string \<times> string) list \<Rightarrow> isolations \<Rightarrow> storage \<Rightarrow> history_row \<times> storage" where
  "add_history user_id content metadata isolations st =
     (let row = \<lparr>row_id = int (length (history st)) + 1, row_user_id = user_id,
                 row_content = content, row_metadata = metadata,
                 row_isolations = json_dumps True isolations, row_is_ingested = False\<rparr>
      in (row, st\<lparr>history := history st @ [row]\<rparr>))"

text \<open>
  Modelled from the spec: \<open>mark_messages_ingested\<close>, whose implementation is not in the
  sources (``bulk flip \<open>is_ingested = true\<close>'').
\<close>

definition mark_messages_ingested :: "int list \<Rightarrow> storage \<Rightarrow> storage" where
  "mark_messages_ingested ids st =
     st\<lparr>history := map (\<lambda>r. if row_id r \<in> set ids then r\<lparr>row_is_ingested := True\<rparr> else r)
                       (history st)\<rparr>"

text \<open>
  Modelled from the spec: \<open>get_history_messages_by_ingestion_status\<close>, whose
  implementation is not in the sources (the user's rows with the given status, oldest
  first, ``bounded by k (0 = unlimited)'').
\<close>

definition get_history_messages_by_ingestion_status ::
  "string \<Rightarrow> int \<Rightarrow> bool \<Rightarrow> storage \<Rightarrow> history_row list" where
  "get_history_messages_by_ingestion_status user_id k is_ingested st =
     (let rows = filter (\<lambda>r. row_user_id r = user_id \<and> row_is_ingested r = is_ingested)
                        (history st)
      in if k > 0 then take (nat k) rows else rows)"

subsection \<open>The collaborators of \<open>ProfileMemory\<close>\<close>

text \<open>
  An entry of a profile section as \<open>get_large_profile_sections\<close> returns it (the code
  reads \<open>memory["metadata"]["id"]\<close>), and a consolidated memory after validation against
  the \<open>ConsolidateMemory\<close> schema.
\<close>

record memory =
  memory_id :: int
  memory_tag :: string
  memory_feature :: string
  memory_value :: string

record consolidate_memory =
  cm_tag :: string
  cm_feature :: string
  cm_value :: string
  cm_citations :: "int list"

text \<open>
  Everything \<open>ProfileMemory\<close> calls and the sources do not define, as parameters:
  the language model and the embedder (each returns or raises), the two prompts, the
  reads of the storage, \<open>str\<close> of a profile, \<open>json.dumps\<close> of a section, \<open>json.loads\<close> of
  a row's isolation text, and validation by pydantic. Of the extraction of a JSON value
  from the model's text, the second strategy (the tag and fence patterns, the repairs,
  \<open>json.loads\<close>, and for updates the brace scan) is a parameter too, a function of the
  text, \<open>None\<close> standing for the paths on which the code logs a warning and returns; the
  first strategy, the \<open><think>\<close> split, is modelled below. The embedder's vectors go to
  the storage only and are not journalled. The storage, whose implementation is not in
  the sources, is taken to return normally.
\<close>

record 'p env =
  generate_response :: "string \<Rightarrow> string \<Rightarrow> py_error + string"
  ingest_embed :: "json list \<Rightarrow> py_error + real list list"
  update_prompt :: string
  consolidation_prompt :: string
  str_profile :: "'p \<Rightarrow> string"
  dumps_memories :: "memory list \<Rightarrow> string"
  json_loads :: "string \<Rightarrow> isolations"
  extract_commands :: "string \<Rightarrow> json option"
  extract_consolidation :: "string \<Rightarrow> json option"
  validate_memory :: "json \<Rightarrow> consolidate_memory option"
  storage_get_profile :: "storage \<Rightarrow> string \<Rightarrow> isolations \<Rightarrow> 'p"
  storage_get_large_profile_sections ::
    "storage \<Rightarrow> string \<Rightarrow> int \<Rightarrow> isolations \<Rightarrow> memory list list"
  storage_get_all_citations_for_ids :: "storage \<Rightarrow> int list \<Rightarrow> (int \<times> isolations) list"

subsection \<open>Calls that may raise\<close>

text \<open>
  A method that raises leaves the object in the state it had reached. The result of a
  call is \<open>Inr s\<close>, a return in state \<open>s\<close>, or \<open>Inl (e, s)\<close>, the exception \<open>e\<close> raised in
  state \<open>s\<close>.
\<close>

type_synonym 's result = "(py_error \<times> 's) + 's"

definition final :: "'s result \<Rightarrow> 's" where
  "final r = (case r of Inl (e, s) \<Rightarrow> s | Inr s \<Rightarrow> s)"

definition raised :: "'s result \<Rightarrow> py_error option" where
  "raised r = (case r of Inl (e, s) \<Rightarrow> Some e | Inr s \<Rightarrow> None)"

text \<open>
  Awaiting calls one after the other, as a \<open>for\<close> loop does: the first exception ends
  the loop.
\<close>

fun run_each :: "('a \<Rightarrow> 's \<Rightarrow> 's result) \<Rightarrow> 'a list \<Rightarrow> 's \<Rightarrow> 's result" where
  "run_each f [] s = Inr s"
| "run_each f (x # xs) s = (case f x s of Inl r \<Rightarrow> Inl r | Inr s' \<Rightarrow> run_each f xs s')"

text \<open>
  \<open>asyncio.gather\<close> with the default \<open>return_exceptions=False\<close>: the first exception
  raised is propagated to the caller; the other awaitables are not cancelled and run to
  their end. The coroutines that \<open>gather\<close> runs concurrently are run one after the other
  here, in the order given, each from the state the previous one left.
\<close>

fun gather :: "('a \<Rightarrow> 's \<Rightarrow> 's result) \<Rightarrow> 'a list \<Rightarrow> 's \<Rightarrow> 's result" where
  "gather f [] s = Inr s"
| "gather f (x # xs) s =
     (case f x s of
        Inl (e, s') \<Rightarrow> Inl (e, final (gather f xs s'))
      | Inr s' \<Rightarrow> gather f xs s')"

text \<open>\<open>except (ExternalServiceAPIError, ValueError, RuntimeError)\<close>.\<close>

definition caught :: "py_error \<Rightarrow> bool" where
  "caught e \<longleftrightarrow> e = ExternalServiceAPIError \<or> e = ValueError \<or> e = RuntimeError"

subsection \<open>State and CRUD operations\<close>

text \<open>
  The keys of the profile cache are Python values: the tuples
  \<open>(user_id, json.dumps(isolations))\<close>, and the bare \<open>user_id\<close> string that
  \<open>_deduplicate_profile\<close> passes to \<open>erase\<close>.
\<close>

datatype cache_key = KPair string string | KStr string

record 'p profile_memory =
  profile_cache :: "(cache_key, 'p) lru_cache"
  profile_storage :: storage
  dirty_users :: tracker_manager
  max_cache_size :: int

definition PROFILE_UPDATE_MESSAGE_LIMIT :: int where
  "PROFILE_UPDATE_MESSAGE_LIMIT = 5"

definition PROFILE_UPDATE_TIME_LIMIT_SEC :: real where
  "PROFILE_UPDATE_TIME_LIMIT_SEC = 120"

definition ProfileMemory :: "int \<Rightarrow> storage \<Rightarrow> py_error + 'p profile_memory" where
  "ProfileMemory cache_size st =
     (case LRUCache cache_size of
        Inl e \<Rightarrow> Inl e
      | Inr c \<Rightarrow>
          Inr \<lparr>profile_cache = c, profile_storage = st,
               dirty_users = ProfileUpdateTrackerManager PROFILE_UPDATE_MESSAGE_LIMIT
                               PROFILE_UPDATE_TIME_LIMIT_SEC,
               max_cache_size = cache_size\<rparr>)"

text \<open>An optional dictionary or list argument: \<open>if x is None: x = {}\<close>.\<close>

definition or_empty :: "'a list option \<Rightarrow> 'a list" where
  "or_empty x = (case x of None \<Rightarrow> [] | Some d \<Rightarrow> d)"

definition profile_key :: "string \<Rightarrow> isolations \<Rightarrow> cache_key" where
  "profile_key user_id isolations = KPair user_id (json_dumps False isolations)"

definition get_user_profile ::
  "'p env \<Rightarrow> string \<Rightarrow> isolations option \<Rightarrow> 'p profile_memory \<Rightarrow> 'p \<times> 'p profile_memory" where
  "get_user_profile env user_id isolations_arg pm =
     (let isolations = or_empty isolations_arg;
          (profile, c) = get (profile_key user_id isolations) (profile_cache pm)
      in case profile of
           Some p \<Rightarrow> (p, pm\<lparr>profile_cache := c\<rparr>)
         | None \<Rightarrow>
             let p = storage_get_profile env (profile_storage pm) user_id isolations
             in (p, pm\<lparr>profile_cache := put (profile_key user_id isolations) p c\<rparr>))"

definition delete_user_profile ::
  "string \<Rightarrow> isolations option \<Rightarrow> 'p profile_memory \<Rightarrow> 'p profile_memory" where
  "delete_user_profile user_id isolations_arg pm =
     (let isolations = or_empty isolations_arg
      in pm\<lparr>profile_cache := erase (profile_key user_id isolations) (profile_cache pm),
            profile_storage := journal (DeleteProfile user_id isolations) (profile_storage pm)\<rparr>)"

text \<open>
  \<open>feature\<close>, \<open>value\<close> and \<open>tag\<close> are annotated \<open>str\<close>, which Python does not check: the
  ingestion passes whatever JSON values the language model wrote in its command. The
  cache entry is erased first; then the embedder is called on \<open>[value]\<close>, outside any
  \<open>try\<close>, and the first vector of its answer is taken; then the feature is stored.
\<close>

definition add_new_profile ::
  "'p env \<Rightarrow> string \<Rightarrow> json \<Rightarrow> json \<Rightarrow> json \<Rightarrow> (string \<times> string) list option \<Rightarrow>
   isolations option \<Rightarrow> int list option \<Rightarrow> 'p profile_memory \<Rightarrow> 'p profile_memory result" where
  "add_new_profile env user_id feature val tag metadata_arg isolations_arg citations_arg pm =
     (let isolations = or_empty isolations_arg;
          metadata = or_empty metadata_arg;
          citations = or_empty citations_arg;
          pm1 = pm\<lparr>profile_cache := erase (profile_key user_id isolations) (profile_cache pm)\<rparr>
      in case ingest_embed env [val] of
           Inl e \<Rightarrow> Inl (e, pm1)
         | Inr [] \<Rightarrow> Inl (IndexError, pm1)
         | Inr (emb # embs) \<Rightarrow>
             Inr (pm1\<lparr>profile_storage :=
                        journal (AddProfileFeature user_id feature val tag metadata isolations
                                   citations)
                                (profile_storage pm1)\<rparr>))"

definition delete_user_profile_feature ::
  "string \<Rightarrow> json \<Rightarrow> json \<Rightarrow> json option \<Rightarrow> isolations option \<Rightarrow>
   'p profile_memory \<Rightarrow> 'p profile_memory" where
  "delete_user_profile_feature user_id feature tag val isolations_arg pm =
     (let isolations = or_empty isolations_arg
      in pm\<lparr>profile_cache := erase (profile_key user_id isolations) (profile_cache pm),
            profile_storage :=
              journal (DeleteProfileFeature user_id feature tag val isolations)
                      (profile_storage pm)\<rparr>)"

subsection \<open>Ingestion of messages\<close>

text \<open>
  \<open>add_persona_message\<close>; the clock read by the tracker is the parameter \<open>now\<close>. The
  content is rewritten by \<open>f"{metadata['speaker']} sends '{content}'"\<close> when the metadata
  has a speaker.
\<close>

definition add_persona_message ::
  "real \<Rightarrow> string \<Rightarrow> (string \<times> string) list option \<Rightarrow> isolations option \<Rightarrow> string \<Rightarrow>
   'p profile_memory \<Rightarrow> 'p profile_memory" where
  "add_persona_message now content metadata_arg isolations_arg user_id pm =
     (let metadata = or_empty metadata_arg;
          isolations = or_empty isolations_arg;
          content1 = (case map_of metadata ''speaker'' of
                        Some speaker \<Rightarrow> speaker @ '' sends '' @ [CHR 0x27] @ content @ [CHR 0x27]
                      | None \<Rightarrow> content);
          (row, st) = add_history user_id content1 metadata isolations (profile_storage pm)
      in pm\<lparr>profile_storage := st,
            dirty_users := manager_mark_update now user_id (dirty_users pm)\<rparr>)"

text \<open>\<open>itertools.groupby\<close>: the maximal runs of consecutive elements with equal keys.\<close>

function groupby :: "('a \<Rightarrow> 'k) \<Rightarrow> 'a list \<Rightarrow> 'a list list" where
  "groupby f [] = []"
| "groupby f (x # xs) =
     (x # takeWhile (\<lambda>y. f y = f x) xs) # groupby f (dropWhile (\<lambda>y. f y = f x) xs)"
  by pat_completeness auto
termination
  by (relation "measure (\<lambda>(f, xs). length xs)") (auto simp: length_dropWhile_le less_Suc_eq_le)

text \<open>
  \<open>key_fn\<close> applies \<open>json.dumps(..., sort_keys=True)\<close> to \<open>r["isolations"]\<close>, which is a
  string: the result is that string as a JSON string literal.
\<close>

definition key_fn :: "history_row \<Rightarrow> string" where
  "key_fn r = json_string (row_isolations r)"

definition get_isolation_grouped_memories ::
  "string \<Rightarrow> 'p profile_memory \<Rightarrow> history_row list list" where
  "get_isolation_grouped_memories user_id pm =
     (let rows = get_history_messages_by_ingestion_status user_id 100 False (profile_storage pm)
      in groupby key_fn (sort_key key_fn rows))"

subsection \<open>Getting the JSON out of the model's answer\<close>

text \<open>
  \<open>s.removeprefix(p)\<close>, and \<open>s.rpartition(sep)\<close> for a separator that is not empty: the
  text before the last occurrence of \<open>sep\<close>, \<open>sep\<close>, and the text after it; two empty
  strings and \<open>s\<close> when \<open>sep\<close> does not occur. \<open>p in s\<close> on strings is \<open>sublist p s\<close>.
\<close>

definition removeprefix :: "string \<Rightarrow> string \<Rightarrow> string" where
  "removeprefix p s = (if prefix p s then drop (length p) s else s)"

fun rpartition :: "string \<Rightarrow> string \<Rightarrow> string \<times> string \<times> string" where
  "rpartition sep [] = ([], [], [])"
| "rpartition sep (c # cs) =
     (case rpartition sep cs of
        (before, found, after) \<Rightarrow>
          if found \<noteq> [] then (c # before, found, after)
          else if prefix sep (c # cs) then ([], sep, drop (length sep) (c # cs))
          else ([], [], c # cs))"

text \<open>
  Both \<open>_update_user_profile_think\<close> and \<open>_deduplicate_profile\<close> get the JSON text out of
  the answer by one of two strategies, then repair it with \<open>re.sub\<close>, then parse it. The
  statement \<open>import re\<close> stands inside the \<open>else\<close> branch, that of the second strategy,
  and the module does not import \<open>re\<close>; so \<open>re\<close> is a local name that is bound on that
  branch only. When the answer has both \<open><think>\<close> and \<open></think>\<close>, the first strategy
  takes the text after the last \<open></think>\<close>; if that text is not empty the first repair
  raises \<open>UnboundLocalError\<close>, outside every \<open>try\<close>; if it is empty the repairs are
  skipped, \<open>json.loads\<close> fails on it and the method logs a warning and returns (\<open>None\<close>).
  Otherwise the second strategy applies, \<open>by_patterns\<close>.
\<close>

definition extract_json :: "(string \<Rightarrow> json option) \<Rightarrow> string \<Rightarrow> py_error + json option" where
  "extract_json by_patterns response_text =
     (if sublist ''<think>'' response_text \<and> sublist ''</think>'' response_text then
        (let (thinking, sep, response_json) =
               rpartition ''</think>'' (removeprefix ''<think>'' response_text)
         in if response_json \<noteq> [] then Inl UnboundLocalError else Inr None)
      else Inr (by_patterns response_text))"

subsection \<open>Consolidation (\<open>_deduplicate_profile\<close>)\<close>

text \<open>
  One pass of the loop over \<open>consolidate_memories\<close>: a memory that fails validation is
  skipped; otherwise its citations are resolved, the isolation map derived, and the entry
  added.
\<close>

definition consolidate_one ::
  "'p env \<Rightarrow> string \<Rightarrow> 'p profile_memory \<Rightarrow> json \<Rightarrow> 'p profile_memory result" where
  "consolidate_one env user_id pm m =
     (case validate_memory env m of
        None \<Rightarrow> Inr pm
      | Some cm \<Rightarrow>
          let associations =
                storage_get_all_citations_for_ids env (profile_storage pm) (cm_citations cm);
              new_citations = map fst associations;
              new_isolations = derive_isolations associations
          in add_new_profile env user_id (JStr (cm_feature cm)) (JStr (cm_value cm))
               (JStr (cm_tag cm)) None (Some new_isolations) (Some new_citations) pm)"

text \<open>One pass of the deletion loop over the section's entries.\<close>

definition delete_unkept :: "string \<Rightarrow> int list \<Rightarrow> 'p profile_memory \<Rightarrow> memory \<Rightarrow> 'p profile_memory" where
  "delete_unkept user_id valid_keep_memories pm m =
     (if memory_id m \<notin> set valid_keep_memories
      then pm\<lparr>profile_cache := erase (KStr user_id) (profile_cache pm),
              profile_storage :=
                journal (DeleteProfileFeatureById (memory_id m)) (profile_storage pm)\<rparr>
      else pm)"

text \<open>
  The part of \<open>_deduplicate_profile\<close> after the response is parsed. A missing
  \<open>consolidate_memories\<close> is replaced by the empty list before \<open>keep_all_memories\<close> is
  initialised to \<open>False\<close>; a missing \<open>keep_memories\<close>, and either value not being a list,
  set \<open>keep_all_memories\<close>.
\<close>

definition apply_consolidation ::
  "'p env \<Rightarrow> string \<Rightarrow> memory list \<Rightarrow> json \<Rightarrow> 'p profile_memory \<Rightarrow> 'p profile_memory result" where
  "apply_consolidation env user_id memories updated_profile_entries pm =
     (case updated_profile_entries of
        JDict d \<Rightarrow>
          let consolidate_memories0 =
                (case map_of d ''consolidate_memories'' of None \<Rightarrow> JList [] | Some x \<Rightarrow> x);
              keep_all_memories0 = False;
              (keep_memories0, keep_all_memories1) =
                (case map_of d ''keep_memories'' of
                   None \<Rightarrow> (JList [], True)
                 | Some x \<Rightarrow> (x, keep_all_memories0));
              (consolidate_memories, keep_all_memories2) =
                (case consolidate_memories0 of
                   JList xs \<Rightarrow> (xs, keep_all_memories1)
                 | _ \<Rightarrow> ([], True));
              (keep_memories, keep_all_memories) =
                (case keep_memories0 of
                   JList xs \<Rightarrow> (xs, keep_all_memories2)
                 | _ \<Rightarrow> ([], True));
              pm1 =
                (if \<not> keep_all_memories
                 then foldl (delete_unkept user_id (List.map_filter py_int keep_memories))
                        pm memories
                 else pm)
          in run_each (\<lambda>m pm. consolidate_one env user_id pm m) consolidate_memories pm1
      | _ \<Rightarrow> Inr pm)"

definition deduplicate_profile ::
  "'p env \<Rightarrow> string \<Rightarrow> memory list \<Rightarrow> 'p profile_memory \<Rightarrow> 'p profile_memory result" where
  "deduplicate_profile env user_id memories pm =
     (case generate_response env (consolidation_prompt env) (dumps_memories env memories) of
        Inl e \<Rightarrow> if caught e then Inr pm else Inl (e, pm)
      | Inr response_text \<Rightarrow>
          (case extract_json (extract_consolidation env) response_text of
             Inl e \<Rightarrow> Inl (e, pm)
           | Inr None \<Rightarrow> Inr pm
           | Inr (Some updated_profile_entries) \<Rightarrow>
               apply_consolidation env user_id memories updated_profile_entries pm))"

subsection \<open>Updating a profile from one message (\<open>_update_user_profile_think\<close>)\<close>

definition user_prompt_of :: "string \<Rightarrow> string \<Rightarrow> string" where
  "user_prompt_of profile memory_content =
     ''The old profile is provided below:'' @ [CHR 0x0A] @
     ''<OLD_PROFILE>'' @ [CHR 0x0A] @
     profile @ [CHR 0x0A] @
     ''</OLD_PROFILE>'' @ [CHR 0x0A] @
     [CHR 0x0A] @
     ''The history is provided below:'' @ [CHR 0x0A] @
     ''<HISTORY>'' @ [CHR 0x0A] @
     memory_content @ [CHR 0x0A] @
     ''</HISTORY>'' @ [CHR 0x0A]"

text \<open>The checks that put a command into \<open>valid_commands\<close>.\<close>

definition valid_command :: "json \<Rightarrow> bool" where
  "valid_command command =
     (case command of
        JDict c \<Rightarrow>
          (case map_of c ''command'' of
             None \<Rightarrow> False
           | Some cmd \<Rightarrow>
               if cmd \<noteq> JStr ''add'' \<and> cmd \<noteq> JStr ''delete'' then False
               else if map_of c ''feature'' = None then False
               else if map_of c ''tag'' = None then False
               else if cmd = JStr ''add'' \<and> map_of c ''value'' = None then False
               else True)
      | _ \<Rightarrow> False)"

text \<open>\<open>d[key]\<close> on a parsed value: \<open>KeyError\<close> when the key is missing.\<close>

definition item :: "json \<Rightarrow> string \<Rightarrow> py_error + json" where
  "item d key =
     (case d of
        JDict c \<Rightarrow> (case map_of c key of None \<Rightarrow> Inl KeyError | Some x \<Rightarrow> Inr x)
      | _ \<Rightarrow> Inl TypeError)"

text \<open>
  \<open>command["value"] if "value" in command else None\<close>; a JSON \<open>null\<close> is Python's
  \<open>None\<close> as well.
\<close>

definition value_or_none :: "json \<Rightarrow> json option" where
  "value_or_none command =
     (case item command ''value'' of Inr JNull \<Rightarrow> None | Inr x \<Rightarrow> Some x | Inl e \<Rightarrow> None)"

definition apply_command ::
  "'p env \<Rightarrow> string \<Rightarrow> int \<Rightarrow> isolations \<Rightarrow> json \<Rightarrow> 'p profile_memory \<Rightarrow>
   'p profile_memory result" where
  "apply_command env user_id citation_id isolations command pm =
     (case item command ''command'' of
        Inl e \<Rightarrow> Inl (e, pm)
      | Inr cmd \<Rightarrow>
          if cmd = JStr ''add'' then
            (case (item command ''feature'', item command ''value'', item command ''tag'') of
               (Inr feature, Inr val, Inr tag) \<Rightarrow>
                 add_new_profile env user_id feature val tag None (Some isolations)
                   (Some [citation_id]) pm
             | _ \<Rightarrow> Inl (KeyError, pm))
          else if cmd = JStr ''delete'' then
            (case (item command ''feature'', item command ''tag'') of
               (Inr feature, Inr tag) \<Rightarrow>
                 Inr (delete_user_profile_feature user_id feature tag (value_or_none command)
                        (Some isolations) pm)
             | _ \<Rightarrow> Inl (KeyError, pm))
          else Inl (ValueError, pm))"

definition update_user_profile_think ::
  "'p env \<Rightarrow> history_row \<Rightarrow> bool \<Rightarrow> 'p profile_memory \<Rightarrow> 'p profile_memory result" where
  "update_user_profile_think env record wait_consolidate pm =
     (let citation_id = row_id record;
          user_id = row_user_id record;
          isolations = json_loads env (row_isolations record);
          (profile, pm1) = get_user_profile env user_id (Some isolations) pm;
          memory_content = row_content record;
          user_prompt = user_prompt_of (str_profile env profile) memory_content
      in case generate_response env (update_prompt env) user_prompt of
           Inl e \<Rightarrow> if caught e then Inr pm1 else Inl (e, pm1)
         | Inr response_text \<Rightarrow>
             (case extract_json (extract_commands env) response_text of
                Inl e \<Rightarrow> Inl (e, pm1)
              | Inr None \<Rightarrow> Inr pm1
              | Inr (Some (JDict profile_update_commands)) \<Rightarrow>
                  let commands = map snd profile_update_commands;
                      valid_commands = filter valid_command commands
                  in (case run_each (apply_command env user_id citation_id isolations)
                              valid_commands pm1 of
                        Inl r \<Rightarrow> Inl r
                      | Inr pm2 \<Rightarrow>
                          if wait_consolidate then
                            gather (deduplicate_profile env user_id)
                              (storage_get_large_profile_sections env (profile_storage pm2)
                                 user_id 5 isolations)
                              pm2
                          else Inr pm2)
              | Inr (Some _) \<Rightarrow> Inr pm1))"

subsection \<open>The ingestion worker\<close>

text \<open>
  \<open>process_messages\<close> runs the update for every message of a group, the last one with
  consolidation. The \<open>mark_messages_ingested\<close> coroutines are only collected while the
  updates run; \<open>asyncio.gather\<close> runs them after the last update has returned. When an
  update raises, the exception leaves \<open>process_messages\<close> and the coroutines collected so
  far are never awaited.
\<close>

definition mark_all :: "history_row list \<Rightarrow> 'p profile_memory \<Rightarrow> 'p profile_memory" where
  "mark_all messages pm =
     foldl (\<lambda>pm m. pm\<lparr>profile_storage := mark_messages_ingested [row_id m] (profile_storage pm)\<rparr>)
       pm messages"

definition process_messages ::
  "'p env \<Rightarrow> history_row list \<Rightarrow> 'p profile_memory \<Rightarrow> 'p profile_memory result" where
  "process_messages env messages pm =
     (if length messages = 0 then Inr pm
      else
        case run_each (\<lambda>m. update_user_profile_think env m False) (butlast messages) pm of
          Inl r \<Rightarrow> Inl r
        | Inr pm1 \<Rightarrow>
            (case update_user_profile_think env (last messages) True pm1 of
               Inl r \<Rightarrow> Inl r
             | Inr pm2 \<Rightarrow> Inr (mark_all messages pm2)))"

definition process_uningested_memories ::
  "'p env \<Rightarrow> string \<Rightarrow> 'p profile_memory \<Rightarrow> 'p profile_memory result" where
  "process_uningested_memories env user_id pm =
     gather (process_messages env) (get_isolation_grouped_memories user_id pm) pm"

text \<open>
  One iteration of the loop of \<open>_background_ingestion_task\<close> at time \<open>now\<close>: with no dirty
  user it sleeps, otherwise it processes every dirty user. An exception that leaves it
  (\<open>Inl\<close>) leaves the loop too, which no \<open>try\<close> guards, and ends the task.
\<close>

definition background_ingestion_step ::
  "'p env \<Rightarrow> real \<Rightarrow> 'p profile_memory \<Rightarrow> 'p profile_memory result" where
  "background_ingestion_step env now pm =
     (let (users, trk) = get_users_to_update now (dirty_users pm);
          pm1 = pm\<lparr>dirty_users := trk\<rparr>
      in if length users = 0 then Inr pm1
         else gather (process_uningested_memories env) users pm1)"

subsection \<open>Notions used to state the ingestion properties\<close>

text \<open>
  The language model is down: every call raises an exception of one of the three classes
  the code catches.
\<close>

definition llm_down :: "'p env \<Rightarrow> bool" where
  "llm_down env \<longleftrightarrow>
     (\<forall>sys usr. \<exists>e. generate_response env sys usr = Inl e \<and> caught e)"

text \<open>
  The user prompt that \<open>_update_user_profile_think\<close> builds for a message in a state, and
  the state in which it calls the language model (after \<open>get_user_profile\<close>).
\<close>

definition prompt_for :: "'p env \<Rightarrow> history_row \<Rightarrow> 'p profile_memory \<Rightarrow> string" where
  "prompt_for env m pm =
     user_prompt_of
       (str_profile env
          (fst (get_user_profile env (row_user_id m) (Some (json_loads env (row_isolations m))) pm)))
       (row_content m)"

definition looked_up :: "'p env \<Rightarrow> history_row \<Rightarrow> 'p profile_memory \<Rightarrow> 'p profile_memory" where
  "looked_up env m pm =
     snd (get_user_profile env (row_user_id m) (Some (json_loads env (row_isolations m))) pm)"

text \<open>The text that the first strategy takes for the JSON: what follows the last \<open></think>\<close>.\<close>

definition after_think :: "string \<Rightarrow> string" where
  "after_think response_text =
     snd (snd (rpartition ''</think>'' (removeprefix ''<think>'' response_text)))"

text \<open>The history table after the rows with an id in \<open>ids\<close> are marked ingested.\<close>

definition ingest :: "int set \<Rightarrow> history_row list \<Rightarrow> history_row list" where
  "ingest ids h = map (\<lambda>r. if row_id r \<in> ids then r\<lparr>row_is_ingested := True\<rparr> else r) h"

text \<open>The cache entry for a user under an isolation map, if the cache holds one.\<close>

definition cached_profile :: "string \<Rightarrow> isolations \<Rightarrow> 'p profile_memory \<Rightarrow> 'p option" where
  "cached_profile user_id isolations pm = cache (profile_cache pm) (profile_key user_id isolations)"

fun is_delete_by_id :: "storage_call \<Rightarrow> bool" where
  "is_delete_by_id (DeleteProfileFeatureById n) = True"
| "is_delete_by_id _ = False"

fun is_list :: "json \<Rightarrow> bool" where
  "is_list (JList xs) = True"
| "is_list _ = False"

subsection \<open>A concrete environment for evaluating the code\<close>

text \<open>
  Collaborators for the concrete runs below: a language model \<open>llm\<close>, whose every answer
  without \<open><think>\<close> tags is read as an empty set of update commands and as the
  consolidation answer \<open>answer\<close>; an embedder that returns one vector for each input;
  a storage that reports the profile \<open>''profile''\<close> and the large sections \<open>sections\<close>;
  rows whose isolation text decodes to the empty map.
\<close>

definition demo_env ::
  "(string \<Rightarrow> string \<Rightarrow> py_error + string) \<Rightarrow> json \<Rightarrow> memory list list \<Rightarrow> string env" where
  "demo_env llm answer sections =
     \<lparr>generate_response = llm,
      ingest_embed = (\<lambda>inputs. Inr (map (\<lambda>x. [0]) inputs)),
      update_prompt = ''update'',
      consolidation_prompt = ''consolidate'',
      str_profile = (\<lambda>p. p),
      dumps_memories = (\<lambda>ms. ''[]''),
      json_loads = (\<lambda>t. []),
      extract_commands = (\<lambda>t. Some (JDict [])),
      extract_consolidation = (\<lambda>t. Some answer),
      validate_memory = (\<lambda>j. None),
      storage_get_profile = (\<lambda>st u i. ''profile''),
      storage_get_large_profile_sections = (\<lambda>st u n i. sections),
      storage_get_all_citations_for_ids = (\<lambda>st ids. [])\<rparr>"

definition failing_llm :: "string \<Rightarrow> string \<Rightarrow> py_error + string" where
  "failing_llm system_prompt user_prompt = Inl RuntimeError"

definition answering_llm :: "string \<Rightarrow> string \<Rightarrow> py_error + string" where
  "answering_llm system_prompt user_prompt = Inr ''{}''"

text \<open>
  A language model that is down for the message \<open>boom\<close> and otherwise answers with its
  reasoning in \<open><think>\<close> tags followed by the JSON, as the shipped prompts ask for.
\<close>

definition moody_llm :: "string \<Rightarrow> string \<Rightarrow> py_error + string" where
  "moody_llm system_prompt user_prompt =
     (if user_prompt = user_prompt_of ''profile'' ''boom'' then Inl RuntimeError
      else Inr ''<think>nothing new</think>{}'')"

text \<open>What is observed of a run that may raise: the exception, or a view of the final state.\<close>

definition outcome :: "('s \<Rightarrow> 'a) \<Rightarrow> 's result \<Rightarrow> py_error + 'a" where
  "outcome view r = (case r of Inl (e, s) \<Rightarrow> Inl e | Inr s \<Rightarrow> Inr (view s))"

definition empty_storage :: storage where
  "empty_storage = \<lparr>history = [], calls = []\<rparr>"

text \<open>A fresh \<open>ProfileMemory\<close> with the default cache size, as a state.\<close>

definition fresh_memory :: "string profile_memory" where
  "fresh_memory =
     \<lparr>profile_cache = \<lparr>capacity = 1000, cache = Map.empty, links = []\<rparr>,
      profile_storage = empty_storage,
      dirty_users = ProfileUpdateTrackerManager PROFILE_UPDATE_MESSAGE_LIMIT
                      PROFILE_UPDATE_TIME_LIMIT_SEC,
      max_cache_size = 1000\<rparr>"

definition section_entry :: "int \<Rightarrow> memory" where
  "section_entry n =
     \<lparr>memory_id = n, memory_tag = ''pets'', memory_feature = ''likes'', memory_value = ''dogs''\<rparr>"

section \<open>Dictionaries as association lists\<close>

lemma map_of_dict_set: "map_of (dict_set k v kvs) = (map_of kvs)(k \<mapsto> v)"
  by (induction kvs) auto

lemma keys_dict_set: "fst ` set (dict_set k v kvs) = insert k (fst ` set kvs)"
proof (induction kvs)
  case Nil
  show ?case by simp
next
  case (Cons p kvs)
  obtain k' v' where p: "p = (k', v')" by (cases p)
  show ?case
  proof (cases "k' = k")
    case True
    then show ?thesis by (simp add: p)
  next
    case False
    then show ?thesis using Cons.IH by (simp add: p insert_commute)
  qed
qed

lemma set_dict_set: "set (dict_set k v kvs) \<subseteq> insert (k, v) (set kvs)"
  by (induction kvs) (auto split: if_splits)

lemma distinct_dict_set: "distinct (map fst kvs) \<Longrightarrow> distinct (map fst (dict_set k v kvs))"
  by (induction kvs) (auto simp: keys_dict_set)

lemma list_all_dict_set: "list_all P kvs \<Longrightarrow> P (k, v) \<Longrightarrow> list_all P (dict_set k v kvs)"
  using set_dict_set[of k v kvs] by (auto simp: list_all_iff)

section \<open>Verification of the LRU cache\<close>

subsection \<open>The representation invariant\<close>

lemma remove1_last_butlast: "distinct xs \<Longrightarrow> xs \<noteq> [] \<Longrightarrow> remove1 (last xs) xs = butlast xs"
  by (induction xs) (auto simp: remove1_idem)

lemma set_butlast_distinct: "distinct xs \<Longrightarrow> xs \<noteq> [] \<Longrightarrow> set (butlast xs) = set xs - {last xs}"
  by (induction xs rule: rev_induct) auto

lemma card_dom_links: "lru_inv c \<Longrightarrow> card (dom (cache c)) = length (links c)"
  by (metis distinct_card lru_inv_def)

lemma lru_inv_erase: "lru_inv c \<Longrightarrow> lru_inv (erase k c)"
  unfolding lru_inv_def erase_def remove_node_def
  by (auto simp: length_remove1)

lemma lru_inv_get: "lru_inv c \<Longrightarrow> lru_inv (snd (get k c))"
  unfolding lru_inv_def get_def remove_node_def add_to_front_def
  by (auto simp: length_remove1 domI) 

lemma put_hit: "k \<in> dom (cache c) \<Longrightarrow>
  put k v c = c\<lparr>cache := (cache c)(k \<mapsto> v), links := k # remove1 k (links c)\<rparr>"
  by (simp add: put_def remove_node_def add_to_front_def)

lemma put_miss_room: "k \<notin> dom (cache c) \<Longrightarrow> lru_inv c \<Longrightarrow> int (length (links c)) < capacity c \<Longrightarrow>
  put k v c = c\<lparr>cache := (cache c)(k \<mapsto> v), links := k # links c\<rparr>"
  by (simp add: put_def remove_node_def add_to_front_def card_dom_links)

lemma put_miss_full: "k \<notin> dom (cache c) \<Longrightarrow> lru_inv c \<Longrightarrow> int (length (links c)) = capacity c \<Longrightarrow>
  put k v c = c\<lparr>cache := ((cache c)(last (links c) := None))(k \<mapsto> v), links := k # butlast (links c)\<rparr>"
proof -
  assume a: "k \<notin> dom (cache c)" "lru_inv c" "int (length (links c)) = capacity c"
  then have ne: "links c \<noteq> []" by (auto simp: lru_inv_def)
  have d: "distinct (links c)" using a by (simp add: lru_inv_def)
  show ?thesis using a ne
    by (simp add: put_def remove_node_def add_to_front_def card_dom_links remove1_last_butlast[OF d ne])
qed

lemma lru_inv_put: assumes "lru_inv c" shows "lru_inv (put k v c)"
proof (cases "k \<in> dom (cache c)")
  case True
  then show ?thesis using assms unfolding put_hit[OF True] lru_inv_def
    by (auto simp: length_remove1)
next
  case False
  show ?thesis
  proof (cases "int (length (links c)) < capacity c")
    case True
    then show ?thesis using assms False unfolding put_miss_room[OF False assms True] lru_inv_def
      by auto
  next
    case f: False
    then have eq: "int (length (links c)) = capacity c" using assms by (simp add: lru_inv_def)
    have ne: "links c \<noteq> []" using eq assms by (auto simp: lru_inv_def)
    have "set (butlast (links c)) = set (links c) - {last (links c)}"
      using assms ne unfolding lru_inv_def by (simp add: set_butlast_distinct)
    then show ?thesis using assms False ne unfolding put_miss_full[OF False assms eq] lru_inv_def
      by (auto simp: distinct_butlast dest: in_set_butlastD)
  qed
qed


subsection \<open>Resident keys against the touch history\<close>

lemma removeAll_append_notin: "k \<notin> set xs \<Longrightarrow> removeAll k (xs @ ys) = xs @ removeAll k ys"
  by simp

lemma removeAll_distinct_in: "distinct (xs @ ys) \<Longrightarrow> k \<in> set xs \<Longrightarrow> removeAll k (xs @ ys) = remove1 k xs @ ys"
  by (induction xs) (auto simp: distinct_remove1_removeAll[symmetric] remove1_idem)

lemma lru_rel_erase: assumes "lru_rel c r" shows "lru_rel (erase k c) (removeAll k r)"
proof -
  from assms obtain ys where r: "r = links c @ ys" and d: "distinct r" and i: "lru_inv c"
    by (auto simp: lru_rel_def prefix_def)
  have s: "set (links c) = dom (cache c)" using i by (simp add: lru_inv_def)
  show ?thesis
  proof (cases "k \<in> dom (cache c)")
    case True
    then have "k \<in> set (links c)" using s by simp
    then have "removeAll k r = remove1 k (links c) @ ys"
      using d r removeAll_distinct_in by metis
    then have "prefix (remove1 k (links c)) (removeAll k r)" by simp
    moreover have "distinct (removeAll k r)" using d by (rule distinct_removeAll)
    ultimately show ?thesis using lru_inv_erase[OF i, of k] True
      by (simp add: lru_rel_def erase_def remove_node_def)
  next
    case False
    then have "k \<notin> set (links c)" using s by simp
    then have "removeAll k r = links c @ removeAll k ys" using r by simp
    then have "prefix (links c) (removeAll k r)" by simp
    moreover have "distinct (removeAll k r)" using d by (rule distinct_removeAll)
    ultimately show ?thesis using i False by (simp add: lru_rel_def erase_def)
  qed
qed

lemma lru_rel_touch_hit:
  assumes "lru_rel c r" "k \<in> dom (cache c)"
  shows "distinct (k # removeAll k r) \<and> prefix (k # remove1 k (links c)) (k # removeAll k r)"
proof -
  from assms obtain ys where r: "r = links c @ ys" and d: "distinct r" and i: "lru_inv c"
    by (auto simp: lru_rel_def prefix_def)
  have "k \<in> set (links c)" using i assms(2) by (simp add: lru_inv_def)
  then have "removeAll k r = remove1 k (links c) @ ys"
    using d r removeAll_distinct_in by metis
  then have "prefix (remove1 k (links c)) (removeAll k r)" by simp
  moreover have "distinct (removeAll k r)" using d by (rule distinct_removeAll)
  ultimately show ?thesis by simp
qed

lemma lru_rel_get: assumes "lru_rel c r"
  shows "lru_rel (snd (get k c)) (if k \<in> dom (cache c) then k # removeAll k r else r)"
proof (cases "k \<in> dom (cache c)")
  case True
  have "lru_inv (snd (get k c))" using assms lru_inv_get by (auto simp: lru_rel_def)
  moreover have "links (snd (get k c)) = k # remove1 k (links c)"
    using True by (simp add: get_def remove_node_def add_to_front_def)
  ultimately show ?thesis using lru_rel_touch_hit[OF assms True] True
    by (simp add: lru_rel_def)
next
  case False
  then show ?thesis using assms by (simp add: get_def)
qed

lemma lru_rel_put: assumes "lru_rel c r"
  shows "lru_rel (put k v c) (k # removeAll k r)"
proof -
  from assms obtain ys where r: "r = links c @ ys" and d: "distinct r" and i: "lru_inv c"
    by (auto simp: lru_rel_def prefix_def)
  have i': "lru_inv (put k v c)" using i by (rule lru_inv_put)
  show ?thesis
  proof (cases "k \<in> dom (cache c)")
    case True
    then show ?thesis using lru_rel_touch_hit[OF assms True] i'
      by (simp add: lru_rel_def put_hit)
  next
    case False
    then have nk: "k \<notin> set (links c)" using i by (simp add: lru_inv_def)
    then have r': "removeAll k r = links c @ removeAll k ys" using r by simp
    have d': "distinct (k # removeAll k r)" using d by (simp add: distinct_removeAll)
    have p': "prefix (links c) (removeAll k r)" using r' by simp
    show ?thesis
    proof (cases "int (length (links c)) < capacity c")
      case True
      then show ?thesis using i' d' p' by (simp add: lru_rel_def put_miss_room[OF False i True])
    next
      case f: False
      then have eq: "int (length (links c)) = capacity c" using i by (simp add: lru_inv_def)
      then have ne: "links c \<noteq> []" using i by (auto simp: lru_inv_def)
      have "prefix (butlast (links c)) (links c)"
        by (rule prefixeq_butlast)
      then have "prefix (butlast (links c)) (removeAll k r)" using p' by (rule prefix_order.trans)
      then show ?thesis using i' d' by (simp add: lru_rel_def put_miss_full[OF False i eq])
    qed
  qed
qed

lemma lru_rel_run: "lru_rel c r \<Longrightarrow> lru_rel (cache_run c ops) (touched_by c r ops)"
proof (induction ops arbitrary: c r)
  case Nil
  then show ?case by simp
next
  case (Cons x ops)
  show ?case
  proof (cases x)
    case (Get k)
    then show ?thesis using Cons.IH[OF lru_rel_get[OF Cons.prems, of k]] by simp
  next
    case (Put k v)
    then show ?thesis using Cons.IH[OF lru_rel_put[OF Cons.prems, of k v]] by simp
  next
    case (Erase k)
    then show ?thesis using Cons.IH[OF lru_rel_erase[OF Cons.prems, of k]] by simp
  qed
qed


lemma capacity_step: "capacity (cache_step c x) = capacity c"
  by (cases x) (auto simp: get_def put_def erase_def Let_def)

lemma capacity_run: "capacity (cache_run c ops) = capacity c"
  by (induction ops arbitrary: c) (auto simp: capacity_step)

lemma length_promote: "k \<in> set xs \<Longrightarrow> Suc (length (remove1 k xs)) = length xs"
  by (induction xs) auto

lemma length_touch: "distinct xs \<Longrightarrow> k \<in> set xs \<Longrightarrow> Suc (length (removeAll k xs)) = length xs"
  by (simp add: distinct_remove1_removeAll[symmetric] length_promote)

lemma lru_filled_put:
  assumes "lru_rel c r" "lru_filled c r"
  shows "lru_filled (put k v c) (k # removeAll k r)"
proof -
  have i: "lru_inv c" and d: "distinct r" and p: "prefix (links c) r"
    using assms(1) by (auto simp: lru_rel_def)
  have s: "set (links c) = dom (cache c)" using i by (simp add: lru_inv_def)
  show ?thesis
  proof (cases "k \<in> dom (cache c)")
    case True
    then have kl: "k \<in> set (links c)" using s by simp
    then have kr: "k \<in> set r" using p by (auto simp: prefix_def)
    have "length (k # removeAll k r) = length r"
      using d kr by (simp add: length_touch)
    moreover have "length (k # remove1 k (links c)) = length (links c)"
      using kl by (simp add: length_promote)
    ultimately show ?thesis using assms(2)
      by (simp add: lru_filled_def put_hit[OF True])
  next
    case False
    show ?thesis
    proof (cases "int (length (links c)) < capacity c")
      case True
      then have "length (links c) = length r" using assms(2) by (auto simp: lru_filled_def)
      then have "links c = r" using p by (auto simp: prefix_def)
      then have "k \<notin> set r" using False s by simp
      then show ?thesis using True \<open>links c = r\<close>
        by (auto simp: lru_filled_def put_miss_room[OF False i True])
    next
      case f: False
      then have eq: "int (length (links c)) = capacity c" using i by (simp add: lru_inv_def)
      then have ne: "links c \<noteq> []" using i by (auto simp: lru_inv_def)
      have "k \<notin> set (links c)" using False s by simp
      then have "length (removeAll k r) \<ge> length (links c)"
        using p by (auto simp: prefix_def)
      then show ?thesis using eq ne
        by (auto simp: lru_filled_def put_miss_full[OF False i eq])
    qed
  qed
qed

lemma lru_filled_get:
  assumes "lru_rel c r" "lru_filled c r"
  shows "lru_filled (snd (get k c)) (if k \<in> dom (cache c) then k # removeAll k r else r)"
proof (cases "k \<in> dom (cache c)")
  case True
  have i: "lru_inv c" and d: "distinct r" and p: "prefix (links c) r"
    using assms(1) by (auto simp: lru_rel_def)
  have kl: "k \<in> set (links c)" using i True by (simp add: lru_inv_def)
  then have kr: "k \<in> set r" using p by (auto simp: prefix_def)
  have "length (k # removeAll k r) = length r"
    using d kr by (simp add: length_touch)
  moreover have "length (k # remove1 k (links c)) = length (links c)"
    using kl by (simp add: length_promote)
  ultimately show ?thesis using assms(2) True
    by (simp add: lru_filled_def get_def remove_node_def add_to_front_def)
next
  case False
  then show ?thesis using assms(2) by (simp add: get_def lru_filled_def)
qed

lemma lru_filled_run:
  "lru_rel c r \<Longrightarrow> lru_filled c r \<Longrightarrow> \<forall>x\<in>set ops. \<not> is_erase x \<Longrightarrow>
   lru_filled (cache_run c ops) (touched_by c r ops)"
proof (induction ops arbitrary: c r)
  case Nil
  then show ?case by simp
next
  case (Cons x ops)
  show ?case
  proof (cases x)
    case (Get k)
    then show ?thesis
      using Cons.IH[OF lru_rel_get[OF Cons.prems(1), of k] lru_filled_get[OF Cons.prems(1,2), of k]]
        Cons.prems(3) by simp
  next
    case (Put k v)
    then show ?thesis
      using Cons.IH[OF lru_rel_put[OF Cons.prems(1), of k v] lru_filled_put[OF Cons.prems(1,2), of k v]]
        Cons.prems(3) by simp
  next
    case (Erase k)
    then show ?thesis using Cons.prems(3) by simp
  qed
qed

lemma prefix_take_length: "prefix xs ys \<Longrightarrow> xs = take (length xs) ys"
  by (auto simp: prefix_def)

lemma cache_run_append: "cache_run c (xs @ ys) = cache_run (cache_run c xs) ys"
  by (induction xs arbitrary: c) auto

lemma LRUCache_rel: "LRUCache N = Inr c0 \<Longrightarrow> lru_rel c0 [] \<and> lru_filled c0 [] \<and> capacity c0 = N"
  by (auto simp: LRUCache_def lru_rel_def lru_inv_def lru_filled_def split: if_splits)

subsection \<open>The cache against the list of resident entries\<close>

lemma map_fst_without:
  "distinct (map fst r) \<Longrightarrow> map fst (without k r) = remove1 k (map fst r)"
proof (induction r)
  case Nil
  then show ?case by (simp add: without_def)
next
  case (Cons p r)
  have "k \<notin> fst ` set r \<Longrightarrow> without k r = r"
    by (auto simp: without_def intro: filter_True)
  then show ?case using Cons by (auto simp: without_def)
qed

lemma map_of_without: "map_of (without k r) = (map_of r)(k := None)"
  by (induction r) (auto simp: without_def)

lemma without_absent: "k \<notin> fst ` set r \<Longrightarrow> without k r = r"
  by (auto simp: without_def intro: filter_True)

lemma map_of_butlast:
  "distinct (map fst r) \<Longrightarrow> r \<noteq> [] \<Longrightarrow> map_of (butlast r) = (map_of r)(fst (last r) := None)"
proof (induction r rule: rev_induct)
  case Nil
  then show ?case by simp
next
  case (snoc p r)
  then have "fst p \<notin> fst ` set r" by auto
  then have "map_of r (fst p) = None" by (simp add: map_of_eq_None_iff)
  then show ?case by (auto simp: map_add_def fun_eq_iff split: option.splits)
qed

lemma length_without_le: "length (without k r) \<le> length r"
  by (simp add: without_def)

lemma distinct_without: "distinct (map fst r) \<Longrightarrow> distinct (map fst (without k r))"
  by (simp add: without_def distinct_map_filter)

lemma distinct_map_butlast: "distinct (map fst r) \<Longrightarrow> distinct (map fst (butlast r))"
  by (simp add: map_butlast distinct_butlast)

lemma holds_inv: "holds n c r \<Longrightarrow> lru_inv c"
  by (auto simp: holds_def lru_inv_def dom_map_of_conv_image_fst)

lemma holds_dom: "holds n c r \<Longrightarrow> dom (cache c) = fst ` set r"
  by (simp add: holds_def dom_map_of_conv_image_fst)

lemma holds_erase: assumes "holds n c r" shows "holds n (erase k c) (resident_step n r (Erase k))"
proof (cases "k \<in> dom (cache c)")
  case True
  then show ?thesis using assms
    using le_trans[OF length_without_le[of k r], of n]
    by (simp add: holds_def erase_def remove_node_def map_fst_without map_of_without
        distinct_without)
next
  case False
  then have "k \<notin> fst ` set r" using holds_dom[OF assms] by simp
  then show ?thesis using assms False by (simp add: erase_def without_absent)
qed

lemma holds_get: assumes "holds n c r" shows "holds n (snd (get k c)) (resident_step n r (Get k))"
proof (cases "map_of r k")
  case None
  then have "k \<notin> dom (cache c)" using assms by (auto simp: holds_def)
  then show ?thesis using assms None by (simp add: get_def)
next
  case (Some v)
  then have d: "k \<in> dom (cache c)" using assms by (auto simp: holds_def)
  then have kr: "k \<in> set (map fst r)" using holds_dom[OF assms] by simp
  have dr: "distinct (map fst r)" using assms by (simp add: holds_def)
  have "map_of ((k, v) # without k r) = map_of r"
    using Some by (auto simp: map_of_without fun_eq_iff)
  moreover have "Suc (length (without k r)) = length r"
    using length_promote[OF kr] map_fst_without[OF dr, of k]
    by (metis length_map)
  ultimately show ?thesis using assms Some d dr
    by (auto simp: holds_def get_def remove_node_def add_to_front_def map_fst_without
        distinct_remove1 simp del: map_of.simps)
qed

lemma holds_put: assumes "holds n c r" shows "holds n (put k v c) (resident_step n r (Put k v))"
proof (cases "k \<in> dom (cache c)")
  case True
  then have kr: "k \<in> set (map fst r)" using holds_dom[OF assms] by simp
  have dr: "distinct (map fst r)" using assms by (simp add: holds_def)
  have "Suc (length (without k r)) = length r"
    using length_promote[OF kr] map_fst_without[OF dr, of k]
    by (metis length_map)
  then show ?thesis using assms True kr dr holds_dom[OF assms]
    by (auto simp: holds_def put_hit map_fst_without map_of_without distinct_remove1 fun_eq_iff)
next
  case False
  then have nk: "k \<notin> fst ` set r" using holds_dom[OF assms] by simp
  have i: "lru_inv c" using assms by (rule holds_inv)
  have len: "length (links c) = length r" using assms by (simp add: holds_def)
  show ?thesis
  proof (cases "n \<le> length r")
    case True
    then have eq: "int (length (links c)) = capacity c" using assms by (simp add: holds_def)
    have ne: "r \<noteq> []" using True assms by (auto simp: holds_def)
    have dr: "distinct (map fst r)" using assms by (simp add: holds_def)
    have l: "last (links c) = fst (last r)" using assms ne by (simp add: holds_def last_map)
    have "k \<notin> fst ` set (butlast r)" using nk by (auto dest: in_set_butlastD)
    then show ?thesis using assms True nk ne
      unfolding put_miss_full[OF False i eq] l
      by (auto simp: holds_def map_butlast map_of_butlast[OF dr ne] distinct_butlast
          dest: in_set_butlastD)
  next
    case f: False
    then have lt: "int (length (links c)) < capacity c" using assms by (simp add: holds_def)
    show ?thesis using assms f nk
      unfolding put_miss_room[OF False i lt]
      by (auto simp: holds_def)
  qed
qed

lemma holds_step: "holds n c r \<Longrightarrow> holds n (cache_step c x) (resident_step n r x)"
  using holds_get[of n c r] holds_put[of n c r] holds_erase[of n c r]
  by (cases x) (simp_all del: resident_step.simps)

lemma holds_run: "holds n c r \<Longrightarrow> holds n (cache_run c ops) (resident n r ops)"
  by (induction ops arbitrary: c r) (simp_all add: holds_step)

lemma touched_by_eq: "holds n c r \<Longrightarrow> touched_by c t ops = touched n r t ops"
proof (induction ops arbitrary: c r t)
  case Nil
  then show ?case by simp
next
  case (Cons x ops)
  have s: "holds n (cache_step c x) (resident_step n r x)" using Cons.prems by (rule holds_step)
  show ?case using Cons.IH[OF s] holds_dom[OF Cons.prems]
    by (cases x) simp_all
qed

lemma LRUCache_holds: "LRUCache N = Inr c0 \<Longrightarrow> holds (nat N) c0 []"
  by (auto simp: LRUCache_def holds_def split: if_splits)


text \<open>
  Claim C7, as amended. Run any sequence of \<open>get\<close>, \<open>put\<close> and \<open>erase\<close> on a fresh cache of
  capacity \<open>N\<close>. The cache then holds exactly the entries that the LRU bookkeeping
  \<open>resident\<close> prescribes, in its order from the most recently used, with the values last
  put, and \<open>get\<close> answers from them. Against the distinct keys touched and not erased
  since, most recently touched first: the resident keys are a prefix of them, of length at
  most \<open>N\<close>, so every resident key is among the \<open>N\<close> most recently touched ones; they
  are exactly those \<open>N\<close> if and only if as many keys are resident as \<open>N\<close> and the number
  of such keys allow, which is the case when the sequence has no \<open>erase\<close>, and whenever
  the cache is full. A \<open>put\<close> of a new key on a full cache evicts the least recently
  touched resident key, the \<open>N\<close>-th of that list. (An evicted key does not come back
  when a resident key is erased, which is when the equality fails.)
\<close>

theorem lru_resident_keys:
  assumes "LRUCache N = Inr c0"
  shows "links (cache_run c0 ops) = map fst (resident (nat N) [] ops) \<and>
         cache (cache_run c0 ops) = map_of (resident (nat N) [] ops) \<and>
         fst (get k' (cache_run c0 ops)) = map_of (resident (nat N) [] ops) k' \<and>
         dom (cache (cache_run c0 ops)) = set (links (cache_run c0 ops)) \<and>
         distinct (touched (nat N) [] [] ops) \<and>
         prefix (links (cache_run c0 ops)) (touched (nat N) [] [] ops) \<and>
         int (length (links (cache_run c0 ops))) \<le> N \<and>
         dom (cache (cache_run c0 ops)) \<subseteq> set (take (nat N) (touched (nat N) [] [] ops)) \<and>
         (dom (cache (cache_run c0 ops)) = set (take (nat N) (touched (nat N) [] [] ops)) \<longleftrightarrow>
            length (links (cache_run c0 ops)) =
              min (nat N) (length (touched (nat N) [] [] ops))) \<and>
         ((\<forall>x\<in>set ops. \<not> is_erase x) \<longrightarrow>
            links (cache_run c0 ops) = take (nat N) (touched (nat N) [] [] ops)) \<and>
         (int (card (dom (cache (cache_run c0 ops)))) = N \<longrightarrow>
            links (cache_run c0 ops) = take (nat N) (touched (nat N) [] [] ops) \<and>
            (k \<notin> dom (cache (cache_run c0 ops)) \<longrightarrow>
               links (cache_run c0 (ops @ [Put k v])) = k # butlast (links (cache_run c0 ops)) \<and>
               dom (cache (cache_run c0 (ops @ [Put k v]))) =
                 insert k (dom (cache (cache_run c0 ops)) -
                           {touched (nat N) [] [] ops ! (nat N - 1)})))"
proof -
  let ?c = "cache_run c0 ops" and ?r = "touched (nat N) [] [] ops"
    and ?e = "resident (nat N) [] ops"
  from assms have init: "lru_rel c0 []" "lru_filled c0 []" "capacity c0 = N"
    using LRUCache_rel by blast+
  have h0: "holds (nat N) c0 []" using assms by (rule LRUCache_holds)
  have h: "holds (nat N) ?c ?e" using h0 by (rule holds_run)
  have tb: "touched_by c0 [] ops = ?r" using h0 by (rule touched_by_eq)
  have e1: "links ?c = map fst ?e" and e2: "cache ?c = map_of ?e"
    using h by (simp_all add: holds_def)
  have e3: "fst (get k' ?c) = map_of ?e k'"
    by (auto simp: get_def e2 domIff)
  have rel: "lru_rel ?c ?r" using lru_rel_run[OF init(1), of ops] by (simp add: tb)
  then have i: "lru_inv ?c" and d: "distinct ?r" and p: "prefix (links ?c) ?r"
    by (auto simp: lru_rel_def)
  have cap: "capacity ?c = N" using init(3) by (simp add: capacity_run)
  have s: "set (links ?c) = dom (cache ?c)" and dl: "distinct (links ?c)"
    and le: "int (length (links ?c)) \<le> N" and pos: "0 < N"
    using i cap by (auto simp: lru_inv_def)
  have tk: "links ?c = take (length (links ?c)) ?r" using p by (rule prefix_take_length)
  have sub: "dom (cache ?c) \<subseteq> set (take (nat N) ?r)"
  proof -
    have "set (take (length (links ?c)) ?r) \<subseteq> set (take (nat N) ?r)"
      using le by (intro set_take_subset_set_take) linarith
    then show ?thesis using tk s by metis
  qed
  have filled: "links ?c = take (nat N) ?r"
    if "length (links ?c) = min (nat N) (length ?r)"
    using that tk by (metis min.commute take_take take_all_iff min_def order_refl)
  have exact: "dom (cache ?c) = set (take (nat N) ?r) \<longleftrightarrow>
            length (links ?c) = min (nat N) (length ?r)"
  proof
    assume "dom (cache ?c) = set (take (nat N) ?r)"
    then have "set (links ?c) = set (take (nat N) ?r)" using s by simp
    moreover have "distinct (take (nat N) ?r)" using d by (rule distinct_take)
    ultimately have "length (links ?c) = length (take (nat N) ?r)"
      using dl by (metis distinct_card)
    then show "length (links ?c) = min (nat N) (length ?r)" by (simp add: min.commute)
  next
    assume "length (links ?c) = min (nat N) (length ?r)"
    then have "links ?c = take (nat N) ?r" by (rule filled)
    then show "dom (cache ?c) = set (take (nat N) ?r)" using s by metis
  qed
  have noerase: "(\<forall>x\<in>set ops. \<not> is_erase x) \<longrightarrow> links ?c = take (nat N) ?r"
  proof
    assume "\<forall>x\<in>set ops. \<not> is_erase x"
    then have "lru_filled ?c ?r" using lru_filled_run[OF init(1,2), of ops] by (simp add: tb)
    then have "length (links ?c) = min (nat N) (length ?r)" by (simp add: lru_filled_def cap)
    then show "links ?c = take (nat N) ?r" by (rule filled)
  qed
  have full: "int (card (dom (cache ?c))) = N \<longrightarrow>
            links ?c = take (nat N) ?r \<and>
            (k \<notin> dom (cache ?c) \<longrightarrow>
               links (cache_run c0 (ops @ [Put k v])) = k # butlast (links ?c) \<and>
               dom (cache (cache_run c0 (ops @ [Put k v]))) =
                 insert k (dom (cache ?c) - {?r ! (nat N - 1)}))"
  proof
    assume "int (card (dom (cache ?c))) = N"
    then have len: "int (length (links ?c)) = N" using i by (simp add: card_dom_links)
    then have ln: "length (links ?c) = nat N" by simp
    have t: "links ?c = take (nat N) ?r" using tk ln by simp
    have ne: "links ?c \<noteq> []" using len pos by auto
    have "last (links ?c) = links ?c ! (nat N - 1)" using ne ln by (simp add: last_conv_nth)
    also have "\<dots> = ?r ! (nat N - 1)" using t pos ln
      by (metis diff_less length_greater_0_conv ne nth_take zero_less_one)
    finally have lst: "last (links ?c) = ?r ! (nat N - 1)" .
    have "k \<notin> dom (cache ?c) \<longrightarrow>
               links (cache_run c0 (ops @ [Put k v])) = k # butlast (links ?c) \<and>
               dom (cache (cache_run c0 (ops @ [Put k v]))) =
                 insert k (dom (cache ?c) - {?r ! (nat N - 1)})"
    proof
      assume nk: "k \<notin> dom (cache ?c)"
      have eq: "int (length (links ?c)) = capacity ?c" using len cap by simp
      show "links (cache_run c0 (ops @ [Put k v])) = k # butlast (links ?c) \<and>
               dom (cache (cache_run c0 (ops @ [Put k v]))) =
                 insert k (dom (cache ?c) - {?r ! (nat N - 1)})"
        unfolding lst[symmetric] cache_run_append
        by (simp add: put_miss_full[OF nk i eq])
    qed
    then show "links ?c = take (nat N) ?r \<and>
            (k \<notin> dom (cache ?c) \<longrightarrow>
               links (cache_run c0 (ops @ [Put k v])) = k # butlast (links ?c) \<and>
               dom (cache (cache_run c0 (ops @ [Put k v]))) =
                 insert k (dom (cache ?c) - {?r ! (nat N - 1)}))" using t by blast
  qed
  have s': "dom (cache ?c) = set (links ?c)" using s by simp
  show ?thesis
    using e1 e2 e3 s' d p le sub exact noerase full by (intro conjI)
qed


lemmas lru_eval = LRUCache_def get_def put_def erase_def remove_node_def add_to_front_def
  without_def

text \<open>
  The theorem on three runs. At capacity 2, \<open>put 1, put 2, put 3, erase 3, get 1, put 4\<close>:
  key 1 is evicted by \<open>put 3\<close>, so \<open>get 1\<close> misses; the cache ends full with the entries of
  keys 4 and 2, which are the two most recently touched keys, and a \<open>put 5\<close> then evicts
  key 2. At capacity 3, \<open>put 1, put 2, erase 2\<close> leaves key 1, the only key touched and
  not erased. At capacity 2, \<open>put 1, put 2, get 1\<close>, without an \<open>erase\<close>, leaves keys 1
  and 2 in this order.
\<close>

theorem lru_resident_keys_witness:
  "LRUCache 2 = Inr (\<lparr>capacity = 2, cache = Map.empty, links = []\<rparr> :: (nat, string) lru_cache) \<and>
   resident 2 []
     [Put (1::nat) ''a'', Put 2 ''b'', Put 3 ''c'', Erase 3, Get 1, Put 4 ''d''] =
     [(4, ''d''), (2, ''b'')] \<and>
   touched 2 [] []
     [Put (1::nat) ''a'', Put 2 ''b'', Put 3 ''c'', Erase 3, Get 1, Put 4 ''d''] = [4, 2, 1] \<and>
   links (cache_run \<lparr>capacity = 2, cache = Map.empty, links = []\<rparr>
     [Put (1::nat) ''a'', Put 2 ''b'', Put 3 ''c'', Erase 3, Get 1, Put 4 ''d'']) = [4, 2] \<and>
   fst (get 2 (cache_run \<lparr>capacity = 2, cache = Map.empty, links = []\<rparr>
     [Put (1::nat) ''a'', Put 2 ''b'', Put 3 ''c'', Erase 3, Get 1, Put 4 ''d''])) = Some ''b'' \<and>
   fst (get 1 (cache_run \<lparr>capacity = 2, cache = Map.empty, links = []\<rparr>
     [Put (1::nat) ''a'', Put 2 ''b'', Put 3 ''c'', Erase 3, Get 1, Put 4 ''d''])) = None \<and>
   dom (cache (cache_run \<lparr>capacity = 2, cache = Map.empty, links = []\<rparr>
     ([Put (1::nat) ''a'', Put 2 ''b'', Put 3 ''c'', Erase 3, Get 1, Put 4 ''d''] @
      [Put 5 ''e'']))) = {5, 4} \<and>
   LRUCache 3 = Inr (\<lparr>capacity = 3, cache = Map.empty, links = []\<rparr> :: (nat, string) lru_cache) \<and>
   resident 3 [] [Put (1::nat) ''a'', Put 2 ''b'', Erase 2] = [(1, ''a'')] \<and>
   touched 3 [] [] [Put (1::nat) ''a'', Put 2 ''b'', Erase 2] = [1] \<and>
   dom (cache (cache_run \<lparr>capacity = 3, cache = Map.empty, links = []\<rparr>
     [Put (1::nat) ''a'', Put 2 ''b'', Erase 2])) = {1} \<and>
   links (cache_run \<lparr>capacity = 2, cache = Map.empty, links = []\<rparr>
     [Put (1::nat) ''a'', Put 2 ''b'', Get 1]) = [1, 2] \<and>
   touched 2 [] [] [Put (1::nat) ''a'', Put 2 ''b'', Get 1] = [1, 2]"
proof -
  let ?c2 = "\<lparr>capacity = 2, cache = Map.empty, links = []\<rparr> :: (nat, string) lru_cache"
  let ?c3 = "\<lparr>capacity = 3, cache = Map.empty, links = []\<rparr> :: (nat, string) lru_cache"
  let ?A = "[Put (1::nat) ''a'', Put 2 ''b'', Put 3 ''c'', Erase 3, Get 1, Put 4 ''d'']"
  let ?B = "[Put (1::nat) ''a'', Put 2 ''b'', Erase 2]"
  let ?C = "[Put (1::nat) ''a'', Put 2 ''b'', Get 1]"
  have i2: "LRUCache 2 = Inr ?c2" and i3: "LRUCache 3 = Inr ?c3"
    by (simp_all add: LRUCache_def)
  have rA: "resident 2 [] ?A = [(4, ''d''), (2, ''b'')]" by (simp add: without_def)
  have tA: "touched 2 [] [] ?A = [4, 2, 1]" by (simp add: without_def)
  have rB: "resident 3 [] ?B = [(1, ''a'')]" by (simp add: without_def)
  have tB: "touched 3 [] [] ?B = [1]" by (simp add: without_def)
  have tC: "touched 2 [] [] ?C = [1, 2]" by (simp add: without_def)
  have n2: "nat 2 = 2" and n3: "nat 3 = 3" by simp_all
  note a2 = lru_resident_keys [OF i2, of ?A 2 5 "''e''", unfolded n2 rA tA]
  note a1 = lru_resident_keys [OF i2, of ?A 1 5 "''e''", unfolded n2 rA tA]
  note b = lru_resident_keys [OF i3, of ?B 1 1 "''a''", unfolded n3 rB tB]
  note c = lru_resident_keys [OF i2, of ?C 1 1 "''a''", unfolded n2 tC]
  have lA: "links (cache_run ?c2 ?A) = [4, 2]" using conjunct1[OF a2] by simp
  have g2: "fst (get 2 (cache_run ?c2 ?A)) = Some ''b''"
    using conjunct1[OF conjunct2[OF conjunct2[OF a2]]] by simp
  have g1: "fst (get 1 (cache_run ?c2 ?A)) = None"
    using conjunct1[OF conjunct2[OF conjunct2[OF a1]]] by simp
  have dA: "dom (cache (cache_run ?c2 ?A)) = {4, 2}"
    using conjunct1[OF conjunct2[OF conjunct2[OF conjunct2[OF a2]]]] lA by simp
  have "5 \<notin> dom (cache (cache_run ?c2 ?A))" unfolding dA by simp
  moreover have "int (card (dom (cache (cache_run ?c2 ?A)))) = 2" unfolding dA by simp
  ultimately have "dom (cache (cache_run ?c2 (?A @ [Put 5 ''e'']))) =
      insert 5 (dom (cache (cache_run ?c2 ?A)) - {[4, 2, 1::nat] ! (2 - 1)})"
    using a2 by blast
  then have pA: "dom (cache (cache_run ?c2 (?A @ [Put 5 ''e'']))) = {5, 4}"
    unfolding dA by (simp add: insert_commute)
  have "links (cache_run ?c3 ?B) = [1]" using conjunct1[OF b] by simp
  then have dB: "dom (cache (cache_run ?c3 ?B)) = {1}"
    using conjunct1[OF conjunct2[OF conjunct2[OF conjunct2[OF b]]]] by simp
  have "\<forall>x\<in>set ?C. \<not> is_erase x" by simp
  then have "links (cache_run ?c2 ?C) = take 2 [1, 2]" using c by blast
  then have lC: "links (cache_run ?c2 ?C) = [1, 2]" by simp
  show ?thesis using i2 i3 rA tA lA g2 g1 pA rB tB dB lC tC by (intro conjI)
qed

text \<open>
  Claim C7 as stated fails once \<open>erase\<close> is used: at capacity 2, after
  \<open>put 1, put 2, put 3, erase 3\<close> only key 2 is resident (key 1 was evicted by \<open>put 3\<close>),
  while the two most recently touched keys that were not erased are 2 and 1.
\<close>

theorem lru_erase_counterexample:
  "LRUCache 2 = Inr \<lparr>capacity = 2, cache = Map.empty, links = []\<rparr> \<and>
   dom (cache (cache_run \<lparr>capacity = 2, cache = Map.empty, links = []\<rparr>
          [Put (1::nat) ''a'', Put 2 ''b'', Put 3 ''c'', Erase 3])) = {2} \<and>
   set (take 2 (touched 2 [] []
          [Put (1::nat) ''a'', Put 2 ''b'', Put 3 ''c'', Erase 3])) = {2, 1} \<and>
   dom (cache (cache_run \<lparr>capacity = 2, cache = Map.empty, links = []\<rparr>
          [Put (1::nat) ''a'', Put 2 ''b'', Put 3 ''c'', Erase 3])) \<noteq>
   set (take 2 (touched 2 [] []
          [Put (1::nat) ''a'', Put 2 ''b'', Put 3 ''c'', Erase 3]))"
  by (simp add: lru_eval)

section \<open>Verification of the update tracker\<close>

lemma should_update_iff:
  "0 \<le> message_count t \<Longrightarrow>
   should_update now t \<longleftrightarrow>
     1 \<le> message_count t \<and>
     (message_limit t \<le> message_count t \<or>
      (\<exists>f. first_updated t = Some f \<and> time_limit t \<le> now - f))"
  by (auto simp: should_update_def seconds_from_first_update_def split: option.splits)

lemma drain_fst: "fst (drain now ts) = map fst (filter (\<lambda>ut. should_update now (snd ut)) ts)"
  by (induction ts) (auto split: prod.splits)

lemma drain_snd:
  "snd (drain now ts) = map (\<lambda>ut. (fst ut, if should_update now (snd ut) then reset (snd ut) else snd ut)) ts"
  by (induction ts) (auto split: prod.splits)

lemma tracker_ok_new: "manager_message_limit m = M \<Longrightarrow> manager_time_limit_sec m = T \<Longrightarrow>
  tracker_ok M T (u, new_tracker m u)"
  by (simp add: tracker_ok_def new_tracker_def ProfileUpdateTracker_def)

lemma tracker_ok_mark: "tracker_ok M T (u, t) \<Longrightarrow> tracker_ok M T (u, mark_update now t)"
  by (auto simp: tracker_ok_def mark_update_def Let_def)

lemma tracker_ok_reset: "tracker_ok M T (u, t) \<Longrightarrow> tracker_ok M T (u, reset t)"
  by (auto simp: tracker_ok_def reset_def)

lemma manager_inv_created: "manager_inv M T (ProfileUpdateTrackerManager M T)"
  by (simp add: manager_inv_def ProfileUpdateTrackerManager_def)

lemma manager_inv_marked:
  assumes "manager_inv M T m" shows "manager_inv M T (manager_mark_update now u m)"
proof -
  let ?ts = "if map_of (trackers m) u = None
             then dict_set u (new_tracker m u) (trackers m) else trackers m"
  have lim: "manager_message_limit m = M" "manager_time_limit_sec m = T"
    using assms by (auto simp: manager_inv_def)
  have d: "distinct (map fst ?ts)" using assms by (simp add: manager_inv_def distinct_dict_set)
  have a: "list_all (tracker_ok M T) ?ts"
    using assms tracker_ok_new[OF lim] by (simp add: manager_inv_def list_all_dict_set)
  show ?thesis
  proof (cases "map_of ?ts u")
    case None
    then show ?thesis using assms by (simp add: manager_mark_update_def)
  next
    case (Some t)
    then have "(u, t) \<in> set ?ts" by (rule map_of_SomeD)
    then have "tracker_ok M T (u, t)" using a by (auto simp: list_all_iff)
    then have "tracker_ok M T (u, mark_update now t)" by (rule tracker_ok_mark)
    then have "list_all (tracker_ok M T) (dict_set u (mark_update now t) ?ts)"
      using a by (simp add: list_all_dict_set)
    moreover have "distinct (map fst (dict_set u (mark_update now t) ?ts))"
      using d by (rule distinct_dict_set)
    ultimately show ?thesis using Some lim
      by (simp add: manager_mark_update_def manager_inv_def)
  qed
qed

lemma manager_inv_queried:
  assumes "manager_inv M T m" shows "manager_inv M T (snd (get_users_to_update now m))"
proof -
  have "trackers (snd (get_users_to_update now m)) = snd (drain now (trackers m))"
    by (simp add: get_users_to_update_def split: prod.splits)
  moreover have "map fst (snd (drain now (trackers m))) = map fst (trackers m)"
    by (simp add: drain_snd comp_def)
  moreover have "list_all (tracker_ok M T) (snd (drain now (trackers m)))"
    using assms tracker_ok_reset
    by (auto simp: drain_snd manager_inv_def list_all_iff)
  ultimately show ?thesis using assms
    by (simp add: manager_inv_def get_users_to_update_def split: prod.splits)
qed

lemma manager_reachable_inv: "manager_reachable M T m \<Longrightarrow> manager_inv M T m"
  by (induction rule: manager_reachable.induct)
     (auto intro: manager_inv_created manager_inv_marked manager_inv_queried)


lemma map_of_drain:
  "map_of (snd (drain now ts)) =
     map_option (\<lambda>t. if should_update now t then reset t else t) \<circ> map_of ts"
proof -
  have "snd (drain now ts) =
          map (\<lambda>(u, t). (u, if should_update now t then reset t else t)) ts"
    by (simp add: drain_snd case_prod_beta)
  then show ?thesis by (simp only: map_of_map)
qed

lemma drain_users:
  assumes "distinct (map fst ts)"
  shows "set (fst (drain now ts)) = {u. \<exists>t. map_of ts u = Some t \<and> should_update now t}"
    and "distinct (fst (drain now ts))"
proof -
  show "set (fst (drain now ts)) = {u. \<exists>t. map_of ts u = Some t \<and> should_update now t}"
    using assms by (auto simp: drain_fst image_iff) 
  show "distinct (fst (drain now ts))"
    unfolding drain_fst using assms by (rule distinct_map_filter)
qed

lemma get_users_to_update_eq:
  "get_users_to_update now m =
     (fst (drain now (trackers m)), m\<lparr>trackers := snd (drain now (trackers m))\<rparr>)"
  by (simp add: get_users_to_update_def split: prod.splits)

lemmas tracker_eval =
  ProfileUpdateTrackerManager_def ProfileUpdateTracker_def manager_mark_update_def
  new_tracker_def mark_update_def get_users_to_update_eq should_update_def
  seconds_from_first_update_def reset_def

text \<open>
  Claim C6. In every state a manager with limits \<open>M\<close> and \<open>T\<close> can reach,
  \<open>get_users_to_update\<close> at time \<open>now\<close> returns exactly the users whose tracker has a
  pending count \<open>n\<close> and a first-touch time \<open>f\<close> with \<open>n \<ge> 1\<close> and
  (\<open>n \<ge> M\<close> or \<open>now - f \<ge> T\<close>), each once; every returned user's tracker is reset
  (count 0, first touch cleared) and every other tracker is unchanged. With \<open>M = 3\<close> and
  \<open>T = 60\<close>: three marks fire whenever they are queried; two marks and a query 61 seconds
  after the second fire; two marks at one instant and a query 10 seconds later do not.
\<close>

theorem tracker_drain:
  assumes "manager_reachable M T m"
  shows "set (fst (get_users_to_update now m)) =
           {u. \<exists>t. map_of (trackers m) u = Some t \<and> 1 \<le> message_count t \<and>
                (M \<le> message_count t \<or> (\<exists>f. first_updated t = Some f \<and> T \<le> now - f))} \<and>
         distinct (fst (get_users_to_update now m)) \<and>
         (\<forall>u\<in>set (fst (get_users_to_update now m)).
            \<exists>t. map_of (trackers (snd (get_users_to_update now m))) u = Some t \<and>
                message_count t = 0 \<and> first_updated t = None) \<and>
         (\<forall>u. u \<notin> set (fst (get_users_to_update now m)) \<longrightarrow>
            map_of (trackers (snd (get_users_to_update now m))) u = map_of (trackers m) u) \<and>
         fst (get_users_to_update now'
               (manager_mark_update t3 w (manager_mark_update t2 w (manager_mark_update t1 w
                 (ProfileUpdateTrackerManager 3 60))))) = [w] \<and>
         (t1 \<le> t2 \<longrightarrow>
            fst (get_users_to_update (t2 + 61)
                  (manager_mark_update t2 w (manager_mark_update t1 w
                    (ProfileUpdateTrackerManager 3 60)))) = [w]) \<and>
         fst (get_users_to_update (t1 + 10)
               (manager_mark_update t1 w (manager_mark_update t1 w
                 (ProfileUpdateTrackerManager 3 60)))) = []"
proof -
  let ?ts = "trackers m" and ?res = "get_users_to_update now m"
  have inv: "manager_inv M T m" using assms by (rule manager_reachable_inv)
  then have d: "distinct (map fst ?ts)" and ok: "list_all (tracker_ok M T) ?ts"
    by (auto simp: manager_inv_def)
  have okt: "tracker_ok M T (u, t)" if "map_of ?ts u = Some t" for u t
    using ok map_of_SomeD[OF that] by (auto simp: list_all_iff)
  have su: "should_update now t \<longleftrightarrow>
       1 \<le> message_count t \<and>
       (M \<le> message_count t \<or> (\<exists>f. first_updated t = Some f \<and> T \<le> now - f))"
    if "map_of ?ts u = Some t" for u t
    using okt[OF that] should_update_iff[of t now] by (simp add: tracker_ok_def)
  have fst_eq: "fst ?res = fst (drain now ?ts)" and
       snd_eq: "trackers (snd ?res) = snd (drain now ?ts)"
    by (simp_all add: get_users_to_update_eq)
  have users: "set (fst ?res) = {u. \<exists>t. map_of ?ts u = Some t \<and> should_update now t}"
    unfolding fst_eq using d by (rule drain_users(1))
  have c1: "set (fst ?res) =
           {u. \<exists>t. map_of ?ts u = Some t \<and> 1 \<le> message_count t \<and>
                (M \<le> message_count t \<or> (\<exists>f. first_updated t = Some f \<and> T \<le> now - f))}"
    unfolding users using su by blast
  have c2: "distinct (fst ?res)" unfolding fst_eq using d by (rule drain_users(2))
  have c3: "\<forall>u\<in>set (fst ?res).
            \<exists>t. map_of (trackers (snd ?res)) u = Some t \<and>
                message_count t = 0 \<and> first_updated t = None"
    unfolding users snd_eq map_of_drain by (auto simp: reset_def)
  have c4: "\<forall>u. u \<notin> set (fst ?res) \<longrightarrow> map_of (trackers (snd ?res)) u = map_of ?ts u"
    unfolding users snd_eq map_of_drain by (auto simp: map_option_case split: option.splits)
  have a: "fst (get_users_to_update now'
               (manager_mark_update t3 w (manager_mark_update t2 w (manager_mark_update t1 w
                 (ProfileUpdateTrackerManager 3 60))))) = [w]"
    by (simp add: tracker_eval)
  have b: "t1 \<le> t2 \<longrightarrow>
            fst (get_users_to_update (t2 + 61)
                  (manager_mark_update t2 w (manager_mark_update t1 w
                    (ProfileUpdateTrackerManager 3 60)))) = [w]"
    by (simp add: tracker_eval)
  have c: "fst (get_users_to_update (t1 + 10)
               (manager_mark_update t1 w (manager_mark_update t1 w
                 (ProfileUpdateTrackerManager 3 60)))) = []"
    by (simp add: tracker_eval)
  show ?thesis using c1 c2 c3 c4 a b c by blast
qed


text \<open>
  The theorem at a reachable state: one user marked twice at time 0 under limits 3 and 60,
  queried at time 61, is returned and reset.
\<close>

theorem tracker_drain_witness:
  "manager_reachable 3 60
     (manager_mark_update 0 ''alice'' (manager_mark_update 0 ''alice''
        (ProfileUpdateTrackerManager 3 60))) \<and>
   set (fst (get_users_to_update 61
     (manager_mark_update 0 ''alice'' (manager_mark_update 0 ''alice''
        (ProfileUpdateTrackerManager 3 60))))) =
     {u. \<exists>t. map_of (trackers (manager_mark_update 0 ''alice'' (manager_mark_update 0 ''alice''
                 (ProfileUpdateTrackerManager 3 60)))) u = Some t \<and> 1 \<le> message_count t \<and>
              (3 \<le> message_count t \<or> (\<exists>f. first_updated t = Some f \<and> 60 \<le> 61 - f))} \<and>
   fst (get_users_to_update 61
     (manager_mark_update 0 ''alice'' (manager_mark_update 0 ''alice''
        (ProfileUpdateTrackerManager 3 60)))) = [''alice''] \<and>
   map_of (trackers (snd (get_users_to_update 61
     (manager_mark_update 0 ''alice'' (manager_mark_update 0 ''alice''
        (ProfileUpdateTrackerManager 3 60)))))) ''alice'' =
     Some \<lparr>user = ''alice'', message_limit = 3, time_limit = 60,
           message_count = 0, first_updated = None\<rparr> \<and>
   (0::real) \<le> 5 \<and>
   fst (get_users_to_update (5 + 61)
     (manager_mark_update 5 ''bob'' (manager_mark_update 0 ''bob''
        (ProfileUpdateTrackerManager 3 60)))) = [''bob'']"
proof -
  let ?m = "manager_mark_update 0 ''alice'' (manager_mark_update 0 ''alice''
        (ProfileUpdateTrackerManager 3 60))"
  have r: "manager_reachable 3 60 ?m"
    by (intro manager_reachable.intros)
  note th = tracker_drain [OF r, of 61 8 7 "''bob''" 5 0]
  have e: "fst (get_users_to_update 61 ?m) = [''alice'']"
    by (simp add: tracker_eval)
  have e': "map_of (trackers (snd (get_users_to_update 61 ?m))) ''alice'' =
     Some \<lparr>user = ''alice'', message_limit = 3, time_limit = 60,
           message_count = 0, first_updated = None\<rparr>"
    by (simp add: tracker_eval)
  show ?thesis using r th e e' by simp
qed

section \<open>Verification of the range filter\<close>

lemmas fl_eval = binary64_def exponent_def rne_def Let_def compute_floorlog

subsection \<open>Rounding to an integer\<close>

lemma rne_of_int [simp]: "rne (of_int m) = m"
  by (simp add: rne_def)

lemma rne_floor: "\<lfloor>y\<rfloor> \<le> rne y" and rne_ceiling: "rne y \<le> \<lfloor>y\<rfloor> + 1"
  by (simp_all add: rne_def Let_def)

lemma rne_mono: assumes "x \<le> y" shows "rne x \<le> rne y"
proof (cases "\<lfloor>x\<rfloor> = \<lfloor>y\<rfloor>")
  case True
  then show ?thesis using assms by (auto simp: rne_def Let_def)
next
  case False
  then have "\<lfloor>x\<rfloor> < \<lfloor>y\<rfloor>" using assms floor_mono[of x y] by linarith
  then have "rne x \<le> \<lfloor>y\<rfloor>" using rne_ceiling[of x] by linarith
  then show ?thesis using rne_floor[of y] by linarith
qed

subsection \<open>The exponent\<close>

lemma exponent_bounds:
  assumes "x \<noteq> 0"
  shows "2 powi (exponent x) \<le> \<bar>x\<bar>" and "\<bar>x\<bar> < 2 powi (exponent x + 1)"
proof -
  have "2 powi (exponent x) \<le> \<bar>x\<bar> \<and> \<bar>x\<bar> < 2 powi (exponent x + 1)"
  proof (cases "1 \<le> \<bar>x\<bar>")
    case True
    let ?n = "nat \<lfloor>\<bar>x\<bar>\<rfloor>"
    have n: "0 < ?n" using True by simp
    have b: "2 ^ (floorlog 2 ?n - 1) \<le> ?n" "?n < 2 ^ floorlog 2 ?n"
      using floorlog_bounds[OF n, of 2] by simp_all
    have fp: "0 < floorlog 2 ?n" using n by (simp add: floorlog_def)
    have e: "exponent x = int (floorlog 2 ?n - 1)" using True fp by (simp add: exponent_def)
    have e1: "exponent x + 1 = int (floorlog 2 ?n)" using e fp by simp
    have "real ?n \<le> \<bar>x\<bar>" using True by simp
    moreover have "(2::real) ^ (floorlog 2 ?n - 1) \<le> real ?n"
      using b(1) by (metis of_nat_le_iff of_nat_numeral of_nat_power)
    moreover have "2 powi (exponent x) = (2::real) ^ (floorlog 2 ?n - 1)"
      unfolding e by simp
    ultimately have l: "2 powi (exponent x) \<le> \<bar>x\<bar>" by linarith
    have "Suc ?n \<le> 2 ^ floorlog 2 ?n" using b(2) by (rule Suc_leI)
    then have "real (Suc ?n) \<le> 2 ^ floorlog 2 ?n"
      by (metis of_nat_le_iff of_nat_numeral of_nat_power)
    moreover have "\<bar>x\<bar> < real (Suc ?n)" using True by simp linarith
    moreover have "2 powi (exponent x + 1) = (2::real) ^ floorlog 2 ?n"
      unfolding e1 by simp
    ultimately have "\<bar>x\<bar> < 2 powi (exponent x + 1)" by linarith
    then show ?thesis using l by simp
  next
    case False
    then have x1: "\<bar>x\<bar> < 1" and x0: "0 < \<bar>x\<bar>" using assms by simp_all
    let ?c = "\<lceil>1 / \<bar>x\<bar>\<rceil>"
    let ?n = "nat (?c - 1)"
    let ?j = "floorlog 2 ?n"
    have i1: "1 < 1 / \<bar>x\<bar>" using x1 x0 by simp
    then have c2: "2 \<le> ?c" by linarith
    then have n: "0 < ?n" by simp
    have "int ?n = ?c - 1" using c2 by arith
    then have rn: "real ?n = real_of_int ?c - 1"
      by (metis of_int_of_nat_eq of_int_diff of_int_1)
    have b: "2 ^ (?j - 1) \<le> ?n" "?n < 2 ^ ?j"
      using floorlog_bounds[OF n, of 2] by simp_all
    have jp: "0 < ?j" using n by (simp add: floorlog_def)
    have e: "exponent x = - int ?j" using False by (simp add: exponent_def)
    have "Suc ?n \<le> 2 ^ ?j" using b(2) by (rule Suc_leI)
    then have "real (Suc ?n) \<le> 2 ^ ?j" by (metis of_nat_le_iff of_nat_numeral of_nat_power)
    moreover have "real (Suc ?n) = real_of_int ?c" using rn by simp
    moreover have "1 / \<bar>x\<bar> \<le> real_of_int ?c" by linarith
    ultimately have "1 / \<bar>x\<bar> \<le> 2 ^ ?j" by linarith
    then have "1 \<le> 2 ^ ?j * \<bar>x\<bar>" using x0 by (simp add: field_simps)
    then have l: "2 powi (exponent x) \<le> \<bar>x\<bar>"
      unfolding e by (simp add: power_int_minus field_simps)
    have "(2::real) ^ (?j - 1) \<le> real ?n"
      using b(1) by (metis of_nat_le_iff of_nat_numeral of_nat_power)
    moreover note rn
    moreover have "real_of_int ?c - 1 < 1 / \<bar>x\<bar>" by linarith
    ultimately have "2 ^ (?j - 1) < 1 / \<bar>x\<bar>" by linarith
    then have u: "\<bar>x\<bar> * 2 ^ (?j - 1) < 1" using x0 by (simp add: field_simps)
    have "exponent x + 1 = - int (?j - 1)" using e jp by simp
    then have "\<bar>x\<bar> < 2 powi (exponent x + 1)"
      using u by (simp add: power_int_minus field_simps)
    then show ?thesis using l by simp
  qed
  then show "2 powi (exponent x) \<le> \<bar>x\<bar>" and "\<bar>x\<bar> < 2 powi (exponent x + 1)" by simp_all
qed

lemma exponent_unique:
  assumes "2 powi k \<le> \<bar>x\<bar>" and "\<bar>x\<bar> < 2 powi (k + 1)"
  shows "exponent x = k"
proof -
  have "(0::real) < 2 powi k" by simp
  then have "0 < \<bar>x\<bar>" using assms(1) by linarith
  then have x: "x \<noteq> 0" by auto
  have "(2::real) powi k < 2 powi (exponent x + 1)"
    using assms(1) exponent_bounds(2)[OF x] by linarith
  then have 1: "k < exponent x + 1"
    by (metis power_int_increasing not_less one_le_numeral)
  have "(2::real) powi (exponent x) < 2 powi (k + 1)"
    using assms(2) exponent_bounds(1)[OF x] by linarith
  then have 2: "exponent x < k + 1"
    by (metis power_int_increasing not_less one_le_numeral)
  show ?thesis using 1 2 by linarith
qed


subsection \<open>Rounding to a double\<close>

lemma binary64_zero [simp]: "binary64 0 = 0"
  by (simp add: binary64_def)

lemma binary64_scaled:
  assumes "2 powi k \<le> \<bar>x\<bar>" and "\<bar>x\<bar> < 2 powi (k + 1)"
  shows "binary64 x = of_int (rne (x / 2 powi (k - 52))) * 2 powi (k - 52)"
proof -
  have "(0::real) < 2 powi k" by simp
  then have "0 < \<bar>x\<bar>" using assms(1) by linarith
  then have "x \<noteq> 0" by auto
  then show ?thesis using exponent_unique[OF assms] by (simp add: binary64_def Let_def)
qed

text \<open>A number with a significand of 53 bits is a double (the exponent range is unbounded).\<close>

lemma binary64_exact:
  assumes "2 ^ 52 \<le> \<bar>m\<bar>" and "\<bar>m\<bar> \<le> 2 ^ 53"
  shows "binary64 (of_int m * 2 powi e) = of_int m * 2 powi e"
proof (cases "\<bar>m\<bar> = 2 ^ 53")
  case False
  then have lt: "\<bar>m\<bar> < 2 ^ 53" using assms(2) by linarith
  let ?x = "of_int m * 2 powi e :: real"
  have ax: "\<bar>?x\<bar> = of_int \<bar>m\<bar> * 2 powi e" by (simp add: abs_mult)
  have "(2::real) ^ 52 \<le> of_int \<bar>m\<bar>" using assms(1) by (metis of_int_le_iff of_int_numeral of_int_power)
  then have "2 ^ 52 * 2 powi e \<le> \<bar>?x\<bar>" unfolding ax by (simp add: mult_right_mono)
  moreover have "(2::real) ^ 52 * 2 powi e = 2 powi (e + 52)" by (simp add: power_int_add)
  ultimately have l: "2 powi (e + 52) \<le> \<bar>?x\<bar>" by simp
  have "of_int \<bar>m\<bar> < (2::real) ^ 53" using lt by (metis of_int_less_iff of_int_numeral of_int_power)
  then have "\<bar>?x\<bar> < 2 ^ 53 * 2 powi e" unfolding ax by (simp add: mult_strict_right_mono)
  moreover have "(2::real) ^ 53 * 2 powi e = 2 powi (e + 52 + 1)" by (simp add: power_int_add)
  ultimately have u: "\<bar>?x\<bar> < 2 powi (e + 52 + 1)" by simp
  show ?thesis unfolding binary64_scaled[OF l u] by simp
next
  case True
  let ?x = "of_int m * 2 powi e :: real"
  have ax: "\<bar>?x\<bar> = 2 ^ 53 * 2 powi e" using True
    by (simp add: abs_mult)
  have p: "(2::real) ^ 53 * 2 powi e = 2 powi (e + 53)" by (simp add: power_int_add)
  have l: "2 powi (e + 53) \<le> \<bar>?x\<bar>" unfolding ax p by simp
  have u: "\<bar>?x\<bar> < 2 powi (e + 53 + 1)" unfolding ax p by (simp add: power_int_add)
  have "m = 2 ^ 53 \<or> m = - (2 ^ 53)" using True by linarith
  then have ev: "even m" by auto
  then obtain h where h: "m = 2 * h" by (elim evenE)
  have "?x / 2 powi (e + 53 - 52) = of_int h"
    using h by (simp add: power_int_add)
  then show ?thesis unfolding binary64_scaled[OF l u] using h by (simp add: power_int_add)
qed

lemma rne_bounds:
  "of_int a \<le> y \<Longrightarrow> a \<le> rne y" "y \<le> of_int b \<Longrightarrow> rne y \<le> b"
  using rne_mono[of "of_int a" y] rne_mono[of y "of_int b"] by simp_all

lemma binary64_significand:
  assumes "x \<noteq> 0"
  shows "2 ^ 52 \<le> \<bar>rne (x / 2 powi (exponent x - 52))\<bar>"
    and "\<bar>rne (x / 2 powi (exponent x - 52))\<bar> \<le> 2 ^ 53"
proof -
  let ?u = "2 powi (exponent x - 52) :: real"
  let ?y = "x / ?u"
  have u: "0 < ?u" by simp
  have e: "2 powi exponent x = 2 ^ 52 * ?u" "2 powi (exponent x + 1) = 2 ^ 53 * ?u"
    by (simp_all add: power_int_diff power_int_add)
  have ay: "\<bar>?y\<bar> = \<bar>x\<bar> / ?u" by simp
  have l: "2 ^ 52 \<le> \<bar>?y\<bar>" and h: "\<bar>?y\<bar> < 2 ^ 53"
    using exponent_bounds[OF assms] u unfolding ay e by (simp_all add: field_simps)
  have "2 ^ 52 \<le> \<bar>rne ?y\<bar> \<and> \<bar>rne ?y\<bar> \<le> 2 ^ 53"
  proof (cases "0 \<le> ?y")
    case True
    then have a: "real_of_int (2 ^ 52) \<le> ?y" and b: "?y \<le> real_of_int (2 ^ 53)"
      using l h by simp_all
    have "2 ^ 52 \<le> rne ?y" "rne ?y \<le> 2 ^ 53"
      using rne_bounds(1)[OF a] rne_bounds(2)[OF b] by simp_all
    then show ?thesis by simp
  next
    case False
    then have a: "?y \<le> real_of_int (- (2 ^ 52))" and b: "real_of_int (- (2 ^ 53)) \<le> ?y"
      using l h by simp_all
    have "rne ?y \<le> - (2 ^ 52)" "- (2 ^ 53) \<le> rne ?y"
      using rne_bounds(2)[OF a] rne_bounds(1)[OF b] by simp_all
    then show ?thesis by simp
  qed
  then show "2 ^ 52 \<le> \<bar>rne ?y\<bar>" and "\<bar>rne ?y\<bar> \<le> 2 ^ 53" by simp_all
qed

text \<open>Rounding a double gives the double.\<close>

lemma binary64_idem [simp]: "binary64 (binary64 x) = binary64 x"
proof (cases "x = 0")
  case True
  then show ?thesis by simp
next
  case False
  have "binary64 x = of_int (rne (x / 2 powi (exponent x - 52))) * 2 powi (exponent x - 52)"
    using False by (simp add: binary64_def Let_def)
  then show ?thesis using binary64_exact[OF binary64_significand[OF False]] by simp
qed


lemma binary64_nonneg: assumes "0 \<le> x" shows "0 \<le> binary64 x"
proof (cases "x = 0")
  case True
  then show ?thesis by simp
next
  case False
  let ?u = "2 powi (exponent x - 52) :: real"
  have "real_of_int 0 \<le> x / ?u" using assms by simp
  then have "0 \<le> rne (x / ?u)" by (rule rne_bounds(1))
  then show ?thesis using False by (simp add: binary64_def Let_def)
qed

text \<open>Rounding is monotone (shown for what is needed, numbers that are not negative).\<close>

lemma binary64_mono:
  assumes "0 \<le> x" and "x \<le> y"
  shows "binary64 x \<le> binary64 y"
proof (cases "x = 0")
  case True
  then show ?thesis using binary64_nonneg[of y] assms by simp
next
  case False
  then have x: "0 < x" and y: "0 < y" and y0: "y \<noteq> 0" using assms by simp_all
  let ?ux = "2 powi (exponent x - 52) :: real" and ?uy = "2 powi (exponent y - 52) :: real"
  have bx: "binary64 x = of_int (rne (x / ?ux)) * ?ux" using False by (simp add: binary64_def Let_def)
  have by': "binary64 y = of_int (rne (y / ?uy)) * ?uy" using y0 by (simp add: binary64_def Let_def)
  have "(2::real) powi exponent x < 2 powi (exponent y + 1)"
    using exponent_bounds(1)[OF False] exponent_bounds(2)[OF y0] assms x y by simp
  then have le: "exponent x \<le> exponent y"
    by (metis power_int_increasing not_less one_le_numeral zle_add1_eq_le)
  show ?thesis
  proof (cases "exponent x = exponent y")
    case True
    have "x / ?uy \<le> y / ?uy" using assms by (simp add: divide_right_mono)
    then have "rne (x / ?uy) \<le> rne (y / ?uy)" by (rule rne_mono)
    then have "real_of_int (rne (x / ?uy)) * ?uy \<le> real_of_int (rne (y / ?uy)) * ?uy"
      by (simp add: mult_right_mono)
    then show ?thesis unfolding bx by' True .
  next
    case ne: False
    then have lt: "exponent x + 1 \<le> exponent y" using le by simp
    have px: "0 \<le> rne (x / ?ux)"
      using rne_bounds(1)[of 0 "x / ?ux"] x by simp
    have py: "0 \<le> rne (y / ?uy)"
      using rne_bounds(1)[of 0 "y / ?uy"] y by simp
    have "rne (x / ?ux) \<le> 2 ^ 53" using binary64_significand(2)[OF False] px by simp
    then have "real_of_int (rne (x / ?ux)) \<le> 2 ^ 53"
      by (metis of_int_le_iff of_int_numeral of_int_power)
    then have "binary64 x \<le> 2 ^ 53 * ?ux" unfolding bx by (simp add: mult_right_mono)
    also have "\<dots> = 2 powi (exponent x + 1)" by (simp add: power_int_add power_int_diff)
    also have "\<dots> \<le> 2 powi (exponent y)" using lt by (simp add: power_int_increasing)
    also have "\<dots> = 2 ^ 52 * ?uy" by (simp add: power_int_diff)
    also have "\<dots> \<le> binary64 y"
    proof -
      have "2 ^ 52 \<le> rne (y / ?uy)" using binary64_significand(1)[OF y0] py by simp
      then have "(2::real) ^ 52 \<le> real_of_int (rne (y / ?uy))"
        by (metis of_int_le_iff of_int_numeral of_int_power)
      then show ?thesis unfolding by' by (simp add: mult_right_mono)
    qed
    finally show ?thesis .
  qed
qed

text \<open>Bounds for the rounded square root from bounds of the radicand.\<close>

lemma binary64_sqrt_le:
  assumes "0 \<le> r" "0 \<le> b" "r \<le> b * b" "binary64 b = b"
  shows "binary64 (sqrt r) \<le> b"
proof -
  have "sqrt r \<le> sqrt (b * b)" using assms(3) by (rule real_sqrt_le_mono)
  then have "sqrt r \<le> b" using assms(2) by simp
  then have "binary64 (sqrt r) \<le> binary64 b" using assms(1) by (intro binary64_mono) simp_all
  then show ?thesis using assms(4) by simp
qed

lemma binary64_sqrt_ge:
  assumes "0 \<le> b" "b * b \<le> r" "binary64 b = b"
  shows "b \<le> binary64 (sqrt r)"
proof -
  have "sqrt (b * b) \<le> sqrt r" using assms(2) by (rule real_sqrt_le_mono)
  then have "b \<le> sqrt r" using assms(1) by simp
  then have "binary64 b \<le> binary64 (sqrt r)" using assms(1) by (intro binary64_mono) simp_all
  then show ?thesis using assms(3) by simp
qed

lemma root_zero [simp]: "root binary64 0 = 0"
  by (simp add: root_def)

subsection \<open>Exact arithmetic\<close>

lemma exact_apply [simp]: "exact x = x"
  by (simp add: exact_def)

lemma root_exact [simp]: "root exact x = sqrt x"
  by (simp add: root_def)

lemma sqrt_less_iff_sq: "0 \<le> y \<Longrightarrow> sqrt x < y \<longleftrightarrow> x < y ^ 2"
  by (metis real_sqrt_less_iff real_sqrt_abs abs_of_nonneg)

lemma candidate_eval:
  "0 \<le> max_std \<Longrightarrow>
   candidate exact max_std (s, sq, d) =
     (if (sq - s * s / real d) / real d < 0 then Inl TypeError
      else Inr (if (sq - s * s / real d) / real d < max_std ^ 2 then int d else - 1))"
  by (simp add: candidate_def sqrt_less_iff_sq Let_def)

lemma pstdev_less_iff:
  "0 \<le> y \<Longrightarrow>
   pstdev xs < y \<longleftrightarrow> sum_list (map (\<lambda>x. (x - mean xs) ^ 2) xs) / real (length xs) < y ^ 2"
  by (simp add: pstdev_def sqrt_less_iff_sq)

lemmas range_filter_eval = range_filter_def candidate_eval py_max_def upt_rec power2_eq_square

subsection \<open>The running sums\<close>

lemma upt_0_Suc: "[0..<Suc n] = 0 # map Suc [0..<n]"
  by (simp add: upt_conv_Cons map_Suc_upt del: upt_Suc)

lemma accumulate_from_eq:
  "accumulate_from exact a xs = map (\<lambda>i. a + sum_list (take (Suc i) xs)) [0..<length xs]"
proof (induction xs arbitrary: a)
  case Nil
  show ?case by simp
next
  case (Cons x xs)
  have "map (\<lambda>i. a + sum_list (take (Suc i) (x # xs))) [0..<length (x # xs)] =
        (a + x) # map (\<lambda>i. (a + x) + sum_list (take (Suc i) xs)) [0..<length xs]"
    by (simp add: upt_0_Suc comp_def add.assoc del: upt_Suc)
  then show ?case using Cons.IH[of "a + x"] by simp
qed

lemma accumulate_eq:
  "accumulate exact xs = map (\<lambda>i. sum_list (take (Suc i) xs)) [0..<length xs]"
proof (cases xs)
  case Nil
  then show ?thesis by simp
next
  case (Cons x ys)
  have "map (\<lambda>i. sum_list (take (Suc i) (x # ys))) [0..<length (x # ys)] =
        x # map (\<lambda>i. x + sum_list (take (Suc i) ys)) [0..<length ys]"
    by (simp add: upt_0_Suc comp_def del: upt_Suc)
  then show ?thesis using Cons by (simp add: accumulate_from_eq)
qed

subsection \<open>The radicand is never negative\<close>

lemma twice_product_le: "2 * y * sum_list xs \<le> sum_list (map (\<lambda>x. x * x) xs) + real (length xs) * (y * y)"
proof (induction xs)
  case Nil
  show ?case by simp
next
  case (Cons x xs)
  have "2 * y * x \<le> x * x + y * y"
    using zero_le_square[of "x - y"] by (simp add: algebra_simps)
  then show ?case using Cons.IH by (simp add: algebra_simps)
qed

lemma square_sum_le: "sum_list xs * sum_list xs \<le> real (length xs) * sum_list (map (\<lambda>x. x * x) xs)"
proof (induction xs)
  case Nil
  show ?case by simp
next
  case (Cons x xs)
  have "2 * x * sum_list xs \<le> sum_list (map (\<lambda>x. x * x) xs) + real (length xs) * (x * x)"
    by (rule twice_product_le)
  then show ?case using Cons.IH by (simp add: algebra_simps)
qed

lemma radicand_nonneg:
  assumes "xs \<noteq> []"
  shows "0 \<le> (sum_list (map (\<lambda>x. x * x) xs) - sum_list xs * sum_list xs / real (length xs))
              / real (length xs)"
proof -
  have n: "0 < real (length xs)" using assms by simp
  have "sum_list xs * sum_list xs / real (length xs) \<le> sum_list (map (\<lambda>x. x * x) xs)"
    using square_sum_le[of xs] n by (simp add: pos_divide_le_eq mult.commute)
  then show ?thesis using n by simp
qed


subsection \<open>The deviation test is the population standard deviation\<close>

lemma sum_squared_distance:
  "sum_list (map (\<lambda>x. (x - c) ^ 2) xs) =
     sum_list (map (\<lambda>x. x * x) xs) - 2 * c * sum_list xs + real (length xs) * (c * c)"
  by (induction xs) (simp_all add: power2_eq_square algebra_simps)

lemma pstdev_eq:
  assumes "xs \<noteq> []"
  shows "pstdev xs =
     sqrt ((sum_list (map (\<lambda>x. x * x) xs) - sum_list xs * sum_list xs / real (length xs))
           / real (length xs))"
proof -
  have n: "real (length xs) \<noteq> 0" using assms by simp
  have "sum_list (map (\<lambda>x. (x - mean xs) ^ 2) xs) =
        sum_list (map (\<lambda>x. x * x) xs) - sum_list xs * sum_list xs / real (length xs)"
    unfolding sum_squared_distance mean_def using n by (simp add: field_simps)
  then show ?thesis by (simp add: pstdev_def)
qed

lemma candidate_prefix:
  assumes "i < length k"
  shows "candidate exact max_std
           (sum_list (take (Suc i) k), sum_list (take (Suc i) (map (\<lambda>x. x * x) k)), Suc i) =
         Inr (if pstdev (take (Suc i) k) < max_std then int (Suc i) else - 1)"
proof -
  let ?xs = "take (Suc i) k"
  have ne: "?xs \<noteq> []" using assms by (cases k) auto
  have len: "length ?xs = Suc i" using assms by simp
  have "0 \<le> (sum_list (map (\<lambda>x. x * x) ?xs) - sum_list ?xs * sum_list ?xs / real (Suc i))
              / real (Suc i)"
    using radicand_nonneg[OF ne] unfolding len .
  moreover have "pstdev ?xs =
     sqrt ((sum_list (map (\<lambda>x. x * x) ?xs) - sum_list ?xs * sum_list ?xs / real (Suc i))
           / real (Suc i))"
    using pstdev_eq[OF ne] unfolding len .
  ultimately show ?thesis
    by (simp add: candidate_def Let_def take_map not_less del: of_nat_Suc)
qed

lemma collect_map_Inr:
  "(\<And>x. x \<in> set xs \<Longrightarrow> f x = Inr (g x)) \<Longrightarrow> collect (map f xs) = Inr (map g xs)"
  by (induction xs) auto

lemma zip3_map:
  "zip (map f xs) (zip (map g xs) (map h xs)) = map (\<lambda>x. (f x, g x, h x)) xs"
  by (induction xs) auto

lemma collect_candidates:
  "collect (map (candidate exact max_std)
      (zip (accumulate exact k) (zip (accumulate exact (map (\<lambda>i. i * i) k)) [1..<length k + 1]))) =
   Inr (map (\<lambda>i. if pstdev (take (Suc i) k) < max_std then int (Suc i) else - 1)
          [0..<length k])"
proof -
  have d: "[1..<length k + 1] = map Suc [0..<length k]"
    by (simp add: map_Suc_upt del: upt_Suc)
  have "zip (accumulate exact k) (zip (accumulate exact (map (\<lambda>i. i * i) k)) [1..<length k + 1]) =
        map (\<lambda>i. (sum_list (take (Suc i) k),
                    sum_list (take (Suc i) (map (\<lambda>x. x * x) k)), Suc i)) [0..<length k]"
    unfolding d accumulate_eq by (simp add: zip3_map del: upt_Suc)
  moreover have "collect (map (\<lambda>i. candidate exact max_std (sum_list (take (Suc i) k),
                    sum_list (take (Suc i) (map (\<lambda>x. x * x) k)), Suc i)) [0..<length k]) =
      Inr (map (\<lambda>i. if pstdev (take (Suc i) k) < max_std then int (Suc i) else - 1)
          [0..<length k])"
    by (rule collect_map_Inr) (simp add: candidate_prefix del: of_nat_Suc)
  ultimately show ?thesis
    by (simp add: comp_def del: upt_Suc of_nat_Suc)
qed

lemma py_max_eq: "xs \<noteq> [] \<Longrightarrow> py_max xs = Max (set xs)"
proof (cases xs)
  case Nil
  assume "xs \<noteq> []" with Nil show ?thesis by simp
next
  case (Cons x ys)
  have "foldl max x ys = fold max ys x"
    by (simp add: foldl_conv_fold max.commute)
  moreover have "Max (set (x # ys)) = fold max ys x"
    by (rule Max.set_eq_fold)
  ultimately show ?thesis using Cons by (simp add: py_max_def)
qed

lemma comprehension_take:
  "[val. (f, val, i) \<leftarrow> zip (map fst arr) (zip (map snd arr) js), c < f] =
   map snd (filter (\<lambda>p. c < fst p) (take (length js) arr))"
proof (induction arr arbitrary: js)
  case Nil
  show ?case by simp
next
  case (Cons a arr)
  show ?case
  proof (cases js)
    case Nil
    then show ?thesis by simp
  next
    case (Cons j js')
    then show ?thesis using Cons.IH[of js'] by simp
  qed
qed

lemma range_filter_closed:
  assumes "arr \<noteq> []"
  shows "range_filter exact arr max_range max_std =
     Inr (map snd (filter (\<lambda>p. fst (hd arr) - max_range < fst p)
                     (take (nat (take_len max_std (map fst arr))) arr)))"
proof -
  let ?cands = "map (\<lambda>i. if pstdev (take (Suc i) (map fst arr)) < max_std then int (Suc i) else - 1)
                  [0..<length arr]"
  have ne: "?cands \<noteq> []" using assms by simp
  have c: "collect (map (candidate exact max_std)
      (zip (accumulate exact (map fst arr))
         (zip (accumulate exact (map (\<lambda>i. exact (i * i)) (map fst arr)))
            [1..<length arr + 1]))) = Inr ?cands"
    using collect_candidates[of max_std "map fst arr"] by simp
  have h: "arr ! 0 = hd arr" using assms by (simp add: hd_conv_nth)
  show ?thesis
    using assms
    unfolding range_filter_def Let_def c h
    by (simp add: comprehension_take take_len_def py_max_eq[OF ne] del: upt_Suc)
qed


subsection \<open>What the filter returns on descending scores\<close>

lemma take_len_cases:
  assumes "k \<noteq> []"
  shows "take_len max_std k = - 1 \<or>
         (0 < take_len max_std k \<and> take_len max_std k \<le> int (length k) \<and>
          pstdev (take (nat (take_len max_std k)) k) < max_std)"
proof -
  let ?cands = "map (\<lambda>i. if pstdev (take (Suc i) k) < max_std then int (Suc i) else - 1)
                  [0..<length k]"
  have "?cands \<noteq> []" using assms by simp
  then have "set ?cands \<noteq> {}" by (simp only: set_empty not_False_eq_True)
  then have "Max (set ?cands) \<in> set ?cands" by (rule Max_in[OF finite_set])
  then have "take_len max_std k \<in> set ?cands" by (simp only: take_len_def)
  then obtain i where i: "i < length k"
    and t: "take_len max_std k = (if pstdev (take (Suc i) k) < max_std then int (Suc i) else - 1)"
    by (auto simp only: set_map image_iff set_upt atLeastLessThan_iff)
  show ?thesis
  proof (cases "pstdev (take (Suc i) k) < max_std")
    case True
    then have e: "take_len max_std k = int (Suc i)" using t by simp
    have n: "nat (take_len max_std k) = Suc i" unfolding e by (rule nat_int)
    have "0 < take_len max_std k" "take_len max_std k \<le> int (length k)"
      using e i by simp_all
    then show ?thesis using True n by simp
  next
    case False
    then show ?thesis using t by simp
  qed
qed

lemma take_len_greatest:
  assumes "0 < d" "d \<le> length k" "pstdev (take d k) < max_std"
  shows "int d \<le> take_len max_std k"
proof -
  let ?cands = "map (\<lambda>i. if pstdev (take (Suc i) k) < max_std then int (Suc i) else - 1)
                  [0..<length k]"
  obtain i where d: "d = Suc i" using assms(1) by (cases d) auto
  then have "i < length k" using assms(2) by simp
  then have "i \<in> set [0..<length k]" by simp
  moreover have "int d = (if pstdev (take (Suc i) k) < max_std then int (Suc i) else - 1)"
    using assms(3) d by simp
  ultimately have "int d \<in> set ?cands" by (simp only: set_map image_iff) blast
  then show ?thesis unfolding take_len_def by (rule Max_ge[OF finite_set])
qed

lemma filter_descending:
  fixes xs :: "(real \<times> 'a) list"
  shows "sorted_wrt (\<lambda>a b. a \<ge> b) (map fst xs) \<Longrightarrow>
   filter (\<lambda>p. c < fst p) xs = takeWhile (\<lambda>p. c < fst p) xs"
proof (induction xs)
  case Nil
  show ?case by simp
next
  case (Cons x xs)
  show ?case
  proof (cases "c < fst x")
    case True
    then show ?thesis using Cons by simp
  next
    case False
    have le: "\<forall>p\<in>set xs. fst p \<le> fst x" using Cons.prems by simp
    have "\<forall>p\<in>set xs. \<not> c < fst p"
    proof
      fix p assume "p \<in> set xs"
      then have "fst p \<le> fst x" using le by blast
      then show "\<not> c < fst p" using False by linarith
    qed
    then have "filter (\<lambda>p. c < fst p) xs = []" by (simp add: filter_empty_conv)
    then show ?thesis using False by simp
  qed
qed

text \<open>
  On scores in descending order, in exact arithmetic, \<open>range_filter\<close> raises nothing
  and returns the items of a prefix of its input. With \<open>d\<close> the greatest length of a
  non-empty prefix whose population standard deviation is below \<open>max_std\<close> (0 when there
  is none), the prefix returned has the length \<open>n \<le> d\<close> of the longest run of leading
  scores that are above the first score minus \<open>max_range\<close>. The deviation bound is known
  for the first \<open>d\<close> scores, not for the first \<open>n\<close>.
\<close>

lemma range_filter_descending:
  assumes "descending (map fst arr)"
  shows "\<exists>n d. n \<le> d \<and> d \<le> length arr \<and>
           range_filter exact arr max_range max_std = Inr (map snd (take n arr)) \<and>
           (\<forall>i<n. fst (arr ! 0) - fst (arr ! i) < max_range) \<and>
           (n < d \<longrightarrow> \<not> fst (arr ! 0) - fst (arr ! n) < max_range) \<and>
           (0 < d \<longrightarrow> pstdev (take d (map fst arr)) < max_std) \<and>
           (\<forall>d'. 0 < d' \<and> d' \<le> length arr \<and> pstdev (take d' (map fst arr)) < max_std
                  \<longrightarrow> d' \<le> d)"
proof (cases "arr = []")
  case True
  then show ?thesis by (auto simp: range_filter_def)
next
  case False
  let ?k = "map fst arr"
  let ?d = "nat (take_len max_std ?k)"
  let ?P = "\<lambda>p. fst (hd arr) - max_range < fst p"
  let ?n = "length (takeWhile ?P (take ?d arr))"
  have k: "?k \<noteq> []" using False by simp
  have h: "arr ! 0 = hd arr" using False by (simp add: hd_conv_nth)
  have d_le: "?d \<le> length arr" using take_len_cases[OF k, of max_std] by auto
  have n_le: "?n \<le> ?d" using length_takeWhile_le[of ?P "take ?d arr"] by simp
  have desc: "sorted_wrt (\<lambda>a b. a \<ge> b) (map fst (take ?d arr))"
    using assms by (simp add: descending_def take_map[symmetric] sorted_wrt_take)
  have "range_filter exact arr max_range max_std = Inr (map snd (takeWhile ?P (take ?d arr)))"
    using range_filter_closed[OF False] filter_descending[OF desc] by simp
  moreover have "takeWhile ?P (take ?d arr) = take ?n arr"
    using takeWhile_eq_take[of ?P "take ?d arr"] n_le by (simp add: min_absorb1)
  ultimately have res: "range_filter exact arr max_range max_std = Inr (map snd (take ?n arr))"
    by simp
  have in_range: "\<forall>i<?n. fst (arr ! 0) - fst (arr ! i) < max_range"
  proof (intro allI impI)
    fix i assume i: "i < ?n"
    then have "takeWhile ?P (take ?d arr) ! i \<in> set (takeWhile ?P (take ?d arr))"
      by (rule nth_mem)
    then have "?P (takeWhile ?P (take ?d arr) ! i)"
      by (rule set_takeWhileD[THEN conjunct2])
    moreover have "takeWhile ?P (take ?d arr) ! i = arr ! i"
      using i n_le by (simp add: takeWhile_nth)
    ultimately show "fst (arr ! 0) - fst (arr ! i) < max_range" using h by simp
  qed
  have stop: "?n < ?d \<longrightarrow> \<not> fst (arr ! 0) - fst (arr ! ?n) < max_range"
  proof
    assume lt: "?n < ?d"
    then have "?n < length (take ?d arr)" using d_le by simp
    then have "\<not> ?P (take ?d arr ! ?n)" by (rule nth_length_takeWhile)
    then show "\<not> fst (arr ! 0) - fst (arr ! ?n) < max_range" using lt h by simp
  qed
  have dev: "0 < ?d \<longrightarrow> pstdev (take ?d ?k) < max_std"
  proof
    assume "0 < ?d"
    then have "take_len max_std ?k \<noteq> - 1" by auto
    then show "pstdev (take ?d ?k) < max_std" using take_len_cases[OF k, of max_std] by blast
  qed
  have greatest: "\<forall>d'. 0 < d' \<and> d' \<le> length arr \<and> pstdev (take d' ?k) < max_std \<longrightarrow> d' \<le> ?d"
  proof (intro allI impI)
    fix d' assume "0 < d' \<and> d' \<le> length arr \<and> pstdev (take d' ?k) < max_std"
    then have "int d' \<le> take_len max_std ?k" using take_len_greatest[of d' ?k max_std] by simp
    then show "d' \<le> ?d" by simp
  qed
  show ?thesis
    using n_le d_le res in_range stop dev greatest
    by (intro exI[of _ ?n] exI[of _ ?d] conjI)
qed

subsection \<open>Single scores and the boundary of the gates\<close>

lemma range_filter_single:
  "0 < max_range \<Longrightarrow> 0 < max_std \<Longrightarrow> range_filter exact [(s, x)] max_range max_std = Inr [x]"
  by (simp add: range_filter_def candidate_def py_max_def upt_rec)

text \<open>
  Claim C4 fails on the code at the boundary. The docstring of \<open>range_filter\<close> asks for
  a range of at most \<open>max_range\<close> and a standard deviation of at most \<open>max_std\<close>, which a
  single score meets for every non-negative bound; the code compares strictly, so a single
  score is dropped when \<open>max_std = 0\<close> (its deviation 0 is not below 0) and when
  \<open>max_range = 0\<close> (the score is not above itself). This is so without rounding, and
  in doubles for every score that is a double.
\<close>

theorem range_filter_single_boundary:
  "range_filter exact [(s, x)] max_range 0 = Inr [] \<and>
   range_filter exact [(s, x)] 0 max_std = Inr [] \<and>
   range_filter binary64 [(binary64 s, x)] max_range 0 = Inr [] \<and>
   range_filter binary64 [(binary64 s, x)] 0 max_std = Inr []"
  by (simp add: range_filter_def candidate_def py_max_def upt_rec)

text \<open>
  Claim C5 fails on the code. Scores \<open>1, 0.5, 0.49\<close> are in descending order; with
  \<open>max_std = 0.24\<close> the longest prefix whose deviation is below the bound is the whole
  list, so three items are taken; with \<open>max_range = 0.505\<close> the range gate then drops the
  third. The two items returned have scores of deviation \<open>0.25\<close>, above \<open>max_std\<close>:
  the deviation gate is decided on the prefix before the range gate shortens it. The
  result is the same without rounding and in doubles, where the literals \<open>0.49\<close>, \<open>0.505\<close>
  and \<open>0.24\<close> stand for the nearest doubles.
\<close>

theorem range_filter_stddev_exceeded:
  "descending [1, 0.5, 0.49] \<and>
   range_filter exact [(1, a), (0.5, b), (0.49, c)] 0.505 0.24 = Inr [a, b] \<and>
   pstdev [1, 0.5] = 0.25 \<and> \<not> pstdev [1, 0.5] < 0.24 \<and>
   descending [1, 0.5, binary64 0.49] \<and>
   range_filter binary64 [(1, a), (0.5, b), (binary64 0.49, c)] (binary64 0.505) (binary64 0.24) =
     Inr [a, b] \<and>
   \<not> pstdev [1, 0.5] < binary64 0.24"
proof -
  let ?M = "1080863910568919 / 4503599627370496 :: real"
  have "descending [1, 0.5, 0.49]" by (simp add: descending_def)
  moreover have "range_filter exact [(1, a), (0.5, b), (0.49, c)] 0.505 0.24 = Inr [a, b]"
    by (simp add: range_filter_eval)
  moreover have p: "pstdev [1, 0.5] = 0.25"
    unfolding pstdev_def by (rule real_sqrt_unique) (simp_all add: mean_def power2_eq_square)
  moreover have "\<not> pstdev [1, 0.5] < 0.24"
    by (subst pstdev_less_iff) (simp_all add: mean_def power2_eq_square)
  moreover have "descending [1, 0.5, binary64 0.49]" by (simp add: descending_def fl_eval)
  moreover have "range_filter binary64 [(1, a), (0.5, b), (binary64 0.49, c)]
      (binary64 0.505) (binary64 0.24) = Inr [a, b]"
  proof -
    have b: "binary64 (1 / 4) = 1 / 4" "binary64 (61 / 256) = 61 / 256"
      by (simp_all add: fl_eval)
    have "sqrt (1 / 16) = 1 / 4" by (rule real_sqrt_unique) (simp_all add: power2_eq_square)
    then have s2: "root binary64 (1 / 16) = 1 / 4" by (simp only: root_def b)
    have "binary64 (sqrt (8169729884033515 / 144115188075855872)) \<le> 61 / 256"
      by (rule binary64_sqrt_le[OF _ _ _ b(2)]) simp_all
    then have s3: "root binary64 (8169729884033515 / 144115188075855872) < ?M"
      unfolding root_def by simp
    show ?thesis
      using s3 by (simp add: range_filter_def candidate_def py_max_def upt_rec fl_eval s2)
  qed
  moreover have "\<not> pstdev [1, 0.5] < binary64 0.24"
    unfolding p by (simp add: fl_eval)
  ultimately show ?thesis by (intro conjI)
qed

text \<open>
  In doubles the radicand can be negative, and then the filter raises: for three scores
  \<open>0.1\<close> the running sum of squares is \<open>0.030000000000000006\<close> and the square of the running
  sum over 3 is \<open>0.03000000000000001\<close>, so the third radicand is about \<open>-1.16e-18\<close>.
\<close>

lemma range_filter_type_error:
  "range_filter binary64 [(binary64 0.1, a), (binary64 0.1, b), (binary64 0.1, c)] 2 1 =
   Inl TypeError"
  by (simp add: range_filter_def candidate_def py_max_def upt_rec fl_eval)

text \<open>The specification's seed scenario 6.\<close>

lemma range_filter_scenario:
  "range_filter exact [(0.9, a), (0.85, b), (0.4, c)] 0.2 1.0 = Inr [a, b]"
  by (simp add: range_filter_eval)

section \<open>Verification of the isolation maps\<close>

lemma py_eq_refl: "py_eq v v"
  by (cases v) auto

lemma map_of_snoc:
  "map_of (xs @ [(k, v)]) k' =
     (case map_of xs k' of Some w \<Rightarrow> Some w | None \<Rightarrow> if k' = k then Some v else None)"
  by (simp add: map_add_def split: option.splits)

lemma map_of_NoneD: "map_of xs k = None \<Longrightarrow> (k, w) \<notin> set xs"
  by (force simp: map_of_eq_None_iff)

lemma conflicted_iff:
  "k \<in> conflicted xs \<longleftrightarrow> (\<exists>v v0. (k, v) \<in> set xs \<and> map_of xs k = Some v0 \<and> \<not> py_eq v0 v)"
  by (simp add: conflicted_def)

lemma conflicted_snoc_new:
  assumes "map_of xs k = None"
  shows "conflicted (xs @ [(k, v)]) = conflicted xs"
proof (rule set_eqI)
  fix k'
  show "k' \<in> conflicted (xs @ [(k, v)]) \<longleftrightarrow> k' \<in> conflicted xs"
  proof (cases "k' = k")
    case True
    have "k \<notin> conflicted xs" using assms by (simp add: conflicted_iff)
    moreover have "k \<notin> conflicted (xs @ [(k, v)])"
      unfolding conflicted_iff map_of_snoc using assms map_of_NoneD[OF assms]
      by (auto simp: py_eq_refl)
    ultimately show ?thesis using True by simp
  next
    case False
    then show ?thesis unfolding conflicted_iff map_of_snoc
      by (auto split: option.splits)
  qed
qed

lemma conflicted_snoc_old:
  assumes "map_of xs k = Some v0"
  shows "conflicted (xs @ [(k, v)]) =
           (if \<not> py_eq v0 v then insert k (conflicted xs) else conflicted xs)"
proof (rule set_eqI)
  fix k'
  have in_xs: "\<exists>w. (k, w) \<in> set xs" using assms map_of_SomeD by fast
  show "k' \<in> conflicted (xs @ [(k, v)]) \<longleftrightarrow>
        k' \<in> (if \<not> py_eq v0 v then insert k (conflicted xs) else conflicted xs)"
  proof (cases "k' = k")
    case True
    have "k \<in> conflicted (xs @ [(k, v)]) \<longleftrightarrow> k \<in> conflicted xs \<or> \<not> py_eq v0 v"
      unfolding conflicted_iff map_of_snoc using assms by auto
    then show ?thesis using True by auto
  next
    case False
    have "k' \<in> conflicted (xs @ [(k, v)]) \<longleftrightarrow> k' \<in> conflicted xs"
      unfolding conflicted_iff map_of_snoc using False
      by (auto split: option.splits)
    then show ?thesis using False by auto
  qed
qed

lemma map_of_snoc_new: "map_of xs k = None \<Longrightarrow> map_of (xs @ [(k, v)]) = (map_of xs)(k \<mapsto> v)"
  by (rule ext) (simp add: map_add_def split: option.splits)

lemma map_of_snoc_old: "map_of xs k = Some v0 \<Longrightarrow> map_of (xs @ [(k, v)]) = map_of xs"
  by (rule ext) (simp add: map_add_def split: option.splits)

lemma merge_items:
  "foldl merge_item ([], {}) xs = (N, B) \<Longrightarrow>
   map_of N = map_of xs \<and> distinct (map fst N) \<and> B = conflicted xs"
proof (induction xs arbitrary: N B rule: rev_induct)
  case Nil
  then show ?case by (simp add: conflicted_def)
next
  case (snoc x xs)
  obtain k v where x: "x = (k, v)" by (cases x)
  obtain N0 B0 where f: "foldl merge_item ([], {}) xs = (N0, B0)" by fastforce
  from snoc.IH[OF f] have m: "map_of N0 = map_of xs" and d: "distinct (map fst N0)"
    and b: "B0 = conflicted xs" by auto
  have step: "merge_item (N0, B0) (k, v) = (N, B)" using snoc.prems f x by simp
  show ?case
  proof (cases "map_of xs k")
    case None
    then have "N = dict_set k v N0" "B = B0" using step m by auto
    moreover have "map_of (dict_set k v N0) = map_of (xs @ [(k, v)])"
      using m by (simp only: map_of_dict_set map_of_snoc_new[OF None])
    ultimately show ?thesis using d b conflicted_snoc_new[OF None] x
      by (simp add: distinct_dict_set)
  next
    case (Some v0)
    then have nb: "N = N0" "B = (if \<not> py_eq v0 v then insert k B0 else B0)"
      using step m by (auto split: if_splits)
    have "map_of N0 = map_of (xs @ [(k, v)])"
      using m by (simp only: map_of_snoc_old[OF Some])
    then show ?thesis using nb d b conflicted_snoc_old[OF Some] x by simp
  qed
qed

lemma foldl_merge_row:
  "foldl merge_row acc A = foldl merge_item acc (concat (map snd A))"
  by (induction A arbitrary: acc) (auto simp: merge_row_def)

lemma map_of_filter_keys:
  "map_of (filter (\<lambda>kv. fst kv \<notin> B) xs) k = (if k \<in> B then None else map_of xs k)"
  by (induction xs) auto

text \<open>
  Claim C8. A consolidated memory that passes validation is added, once the embedder
  has returned a vector for its value, with the isolation map derived from the history
  rows that \<open>get_all_citations_for_ids\<close> resolves its citations to (when the embedder
  raises or returns no vector, nothing is added). That map is computed from the rows' isolation maps, taken in order: a key
  gets the first value seen for it, and is dropped when some cited row gives it a value
  that differs (by Python's \<open>!=\<close>) from that first value; every key occurs once.
  Merging rows with \<open>{g: G, s: S1}\<close> and \<open>{g: G, s: S2}\<close> yields \<open>{g: G}\<close>.
\<close>

theorem derive_isolations_spec:
  "calls (profile_storage (final (consolidate_one env u pm m))) =
     calls (profile_storage pm) @
       (case validate_memory env m of
          None \<Rightarrow> []
        | Some cm \<Rightarrow>
            (case ingest_embed env [JStr (cm_value cm)] of
               Inr (emb # embs) \<Rightarrow>
                 [AddProfileFeature u (JStr (cm_feature cm)) (JStr (cm_value cm))
                    (JStr (cm_tag cm)) []
                    (derive_isolations
                       (storage_get_all_citations_for_ids env (profile_storage pm)
                          (cm_citations cm)))
                    (map fst
                       (storage_get_all_citations_for_ids env (profile_storage pm)
                          (cm_citations cm)))]
             | _ \<Rightarrow> [])) \<and>
   map_of (derive_isolations A) k =
     (case map_of (concat (map snd A)) k of
        None \<Rightarrow> None
      | Some v0 \<Rightarrow>
          if \<exists>v. (k, v) \<in> set (concat (map snd A)) \<and> \<not> py_eq v0 v then None else Some v0) \<and>
   distinct (map fst (derive_isolations A)) \<and>
   derive_isolations [(h1, [(''g'', VStr ''G''), (''s'', VStr ''S1'')]),
                      (h2, [(''g'', VStr ''G''), (''s'', VStr ''S2'')])] = [(''g'', VStr ''G'')]"
proof -
  let ?xs = "concat (map snd A)"
  obtain N B where f: "foldl merge_row ([], {}) A = (N, B)" by fastforce
  then have "foldl merge_item ([], {}) ?xs = (N, B)" by (simp add: foldl_merge_row)
  from merge_items[OF this] have m: "map_of N = map_of ?xs" and d: "distinct (map fst N)"
    and b: "B = conflicted ?xs" by auto
  have r: "derive_isolations A = filter (\<lambda>kv. fst kv \<notin> B) N"
    by (simp add: derive_isolations_def f)
  have "map_of (derive_isolations A) k =
     (case map_of ?xs k of
        None \<Rightarrow> None
      | Some v0 \<Rightarrow> if \<exists>v. (k, v) \<in> set ?xs \<and> \<not> py_eq v0 v then None else Some v0)"
    unfolding r map_of_filter_keys m b conflicted_def
    by (auto split: option.splits)
  moreover have "distinct (map fst (derive_isolations A))"
    unfolding r using d by (simp add: distinct_map_filter)
  moreover have "derive_isolations [(h1, [(''g'', VStr ''G''), (''s'', VStr ''S1'')]),
                      (h2, [(''g'', VStr ''G''), (''s'', VStr ''S2'')])] = [(''g'', VStr ''G'')]"
    by (simp add: derive_isolations_def merge_row_def)
  moreover have "calls (profile_storage (final (consolidate_one env u pm m))) =
     calls (profile_storage pm) @
       (case validate_memory env m of
          None \<Rightarrow> []
        | Some cm \<Rightarrow>
            (case ingest_embed env [JStr (cm_value cm)] of
               Inr (emb # embs) \<Rightarrow>
                 [AddProfileFeature u (JStr (cm_feature cm)) (JStr (cm_value cm))
                    (JStr (cm_tag cm)) []
                    (derive_isolations
                       (storage_get_all_citations_for_ids env (profile_storage pm)
                          (cm_citations cm)))
                    (map fst
                       (storage_get_all_citations_for_ids env (profile_storage pm)
                          (cm_citations cm)))]
             | _ \<Rightarrow> []))"
    by (simp add: consolidate_one_def add_new_profile_def or_empty_def journal_def Let_def
             final_def split: option.splits sum.splits list.splits)
  ultimately show ?thesis by (intro conjI)
qed

section \<open>Verification of the profile memory\<close>

subsection \<open>Results of calls\<close>

lemma final_simps [simp]: "final (Inr s) = s" "final (Inl (e, s)) = s"
  by (simp_all add: final_def)

lemma raised_simps [simp]: "raised (Inr s) = None" "raised (Inl (e, s)) = Some e"
  by (simp_all add: raised_def)

lemma result_cases:
  obtains (Returned) s where "r = Inr s" | (Raised) e s where "r = Inl (e, s)"
  by (cases r) auto

lemma run_each_final:
  assumes "\<And>x s. h (final (f x s)) = h s"
  shows "h (final (run_each f xs s)) = h s"
proof (induction xs arbitrary: s)
  case Nil
  show ?case by simp
next
  case (Cons x xs)
  show ?case
  proof (cases "f x s" rule: result_cases)
    case (Returned s1)
    then have "h s1 = h s" using assms[of x s] by simp
    then show ?thesis using Returned Cons.IH[of s1] by simp
  next
    case (Raised e s1)
    then have "h s1 = h s" using assms[of x s] by simp
    then show ?thesis using Raised by simp
  qed
qed

lemma gather_final:
  assumes "\<And>x s. h (final (f x s)) = h s"
  shows "h (final (gather f xs s)) = h s"
proof (induction xs arbitrary: s)
  case Nil
  show ?case by simp
next
  case (Cons x xs)
  show ?case
  proof (cases "f x s" rule: result_cases)
    case (Returned s1)
    then have "h s1 = h s" using assms[of x s] by simp
    then show ?thesis using Returned Cons.IH[of s1] by simp
  next
    case (Raised e s1)
    then have "h s1 = h s" using assms[of x s] by simp
    then show ?thesis using Raised Cons.IH[of s1] by simp
  qed
qed

lemma run_each_returns:
  "(\<And>x s. x \<in> set xs \<Longrightarrow> \<exists>s'. f x s = Inr s') \<Longrightarrow> \<exists>s'. run_each f xs s = Inr s'"
proof (induction xs arbitrary: s)
  case Nil
  show ?case by simp
next
  case (Cons x xs)
  obtain s1 where s1: "f x s = Inr s1" using Cons.prems[of x s] by auto
  obtain s2 where "run_each f xs s1 = Inr s2" using Cons.IH[of s1] Cons.prems by auto
  then show ?case using s1 by simp
qed

lemma gather_returns:
  "(\<And>x s. x \<in> set xs \<Longrightarrow> \<exists>s'. f x s = Inr s') \<Longrightarrow> \<exists>s'. gather f xs s = Inr s'"
proof (induction xs arbitrary: s)
  case Nil
  show ?case by simp
next
  case (Cons x xs)
  obtain s1 where s1: "f x s = Inr s1" using Cons.prems[of x s] by auto
  obtain s2 where "gather f xs s1 = Inr s2" using Cons.IH[of s1] Cons.prems by auto
  then show ?case using s1 by simp
qed

lemma gather_Inr_Cons:
  "gather f (x # xs) s = Inr s' \<longleftrightarrow> (\<exists>s1. f x s = Inr s1 \<and> gather f xs s1 = Inr s')"
  by (cases "f x s" rule: result_cases) simp_all

subsection \<open>What the operations leave alone\<close>

lemma history_journal [simp]: "history (journal c st) = history st"
  by (simp add: journal_def)

lemma calls_journal [simp]: "calls (journal c st) = calls st @ [c]"
  by (simp add: journal_def)

lemma get_user_profile_storage [simp]:
  "profile_storage (snd (get_user_profile env u i pm)) = profile_storage pm"
  by (simp add: get_user_profile_def Let_def split: prod.splits option.splits)

lemma looked_up_storage [simp]: "profile_storage (looked_up env m pm) = profile_storage pm"
  by (simp add: looked_up_def)

lemma add_new_profile_history [simp]:
  "history (profile_storage (final (add_new_profile env u f v t md i c pm))) =
   history (profile_storage pm)"
  by (simp add: add_new_profile_def Let_def split: sum.splits list.splits)

lemma delete_user_profile_feature_history [simp]:
  "history (profile_storage (delete_user_profile_feature u f t v i pm)) = history (profile_storage pm)"
  by (simp add: delete_user_profile_feature_def Let_def)

lemma consolidate_one_history [simp]:
  "history (profile_storage (final (consolidate_one env u pm m))) = history (profile_storage pm)"
  by (simp add: consolidate_one_def Let_def split: option.splits)

lemma delete_unkept_history [simp]:
  "history (profile_storage (delete_unkept u keep pm m)) = history (profile_storage pm)"
  by (simp add: delete_unkept_def)

lemma foldl_history:
  "(\<And>pm x. history (profile_storage (f pm x)) = history (profile_storage pm)) \<Longrightarrow>
   history (profile_storage (foldl f pm xs)) = history (profile_storage pm)"
  by (induction xs arbitrary: pm) auto

lemma apply_consolidation_history [simp]:
  "history (profile_storage (final (apply_consolidation env u ms j pm))) =
   history (profile_storage pm)"
proof -
  have r: "history (profile_storage (final (run_each (\<lambda>m pm. consolidate_one env u pm m) xs s))) =
      history (profile_storage s)" for xs s
    by (rule run_each_final) simp
  show ?thesis
    by (simp add: apply_consolidation_def Let_def r foldl_history
        split: json.splits option.splits prod.splits)
qed

lemma deduplicate_profile_history [simp]:
  "history (profile_storage (final (deduplicate_profile env u ms pm))) =
   history (profile_storage pm)"
  by (simp add: deduplicate_profile_def split: sum.splits option.splits)

lemma apply_command_history [simp]:
  "history (profile_storage (final (apply_command env u cid i c pm))) =
   history (profile_storage pm)"
  by (simp add: apply_command_def split: sum.splits prod.splits)

lemma update_user_profile_think_history [simp]:
  "history (profile_storage (final (update_user_profile_think env r w pm))) =
   history (profile_storage pm)"
proof -
  obtain p pm1 where g: "get_user_profile env (row_user_id r)
      (Some (json_loads env (row_isolations r))) pm = (p, pm1)" by fastforce
  then have h1: "history (profile_storage pm1) = history (profile_storage pm)"
    by (metis get_user_profile_storage snd_conv)
  have ra: "history (profile_storage (final (run_each (apply_command env (row_user_id r) (row_id r)
               (json_loads env (row_isolations r))) xs s))) = history (profile_storage s)" for xs s
    by (rule run_each_final) simp
  have rd: "history (profile_storage (final (gather (deduplicate_profile env (row_user_id r)) xs s)))
            = history (profile_storage s)" for xs s
    by (rule gather_final) simp
  let ?cmds = "\<lambda>d. run_each (apply_command env (row_user_id r) (row_id r)
               (json_loads env (row_isolations r))) (filter valid_command (map snd d)) pm1"
  have cmds: "history (profile_storage (final (?cmds d))) = history (profile_storage pm)" for d
    using ra[of _ pm1] h1 by simp
  have c: "history (profile_storage (final
        (case ?cmds d of
           Inl r \<Rightarrow> Inl r
         | Inr pm2 \<Rightarrow>
             if w then gather (deduplicate_profile env (row_user_id r))
                         (storage_get_large_profile_sections env (profile_storage pm2)
                            (row_user_id r) 5 (json_loads env (row_isolations r))) pm2
             else Inr pm2))) = history (profile_storage pm)" for d
  proof (cases "?cmds d" rule: result_cases)
    case (Returned pm2)
    then have "history (profile_storage pm2) = history (profile_storage pm)"
      using cmds[of d] by simp
    then show ?thesis using Returned rd[of _ pm2] by simp
  next
    case (Raised e pm2)
    then show ?thesis using cmds[of d] by simp
  qed
  show ?thesis
  proof (cases "generate_response env (update_prompt env)
                  (user_prompt_of (str_profile env p) (row_content r))")
    case (Inl e)
    then show ?thesis using h1 by (simp add: update_user_profile_think_def g)
  next
    case (Inr resp)
    show ?thesis
    proof (cases "extract_json (extract_commands env) resp")
      case (Inl e)
      then show ?thesis using Inr h1 by (simp add: update_user_profile_think_def g)
    next
      case x: (Inr x)
      show ?thesis
      proof (cases x)
        case None
        then show ?thesis using Inr x h1 by (simp add: update_user_profile_think_def g)
      next
        case (Some j)
        show ?thesis
        proof (cases "\<exists>d. j = JDict d")
          case True
          then obtain d where "j = JDict d" by blast
          then show ?thesis using Inr x Some c[of d]
            by (simp add: update_user_profile_think_def g Let_def)
        next
          case False
          then show ?thesis using Inr x Some h1
            by (cases j) (simp_all add: update_user_profile_think_def g)
        qed
      qed
    qed
  qed
qed

subsection \<open>Marking the messages of a group\<close>

lemma ingest_ingest: "ingest A (ingest B h) = ingest (B \<union> A) h"
  by (induction h) (auto simp: ingest_def)

lemma ingest_empty [simp]: "ingest {} h = h"
  by (simp add: ingest_def)

lemma mark_all_history:
  "history (profile_storage (mark_all ms pm)) = ingest (row_id ` set ms) (history (profile_storage pm))"
proof (induction ms arbitrary: pm)
  case Nil
  show ?case by (simp add: mark_all_def)
next
  case (Cons m ms)
  let ?pm1 = "pm\<lparr>profile_storage := mark_messages_ingested [row_id m] (profile_storage pm)\<rparr>"
  have "mark_all (m # ms) pm = mark_all ms ?pm1" by (simp add: mark_all_def)
  moreover have "history (profile_storage ?pm1) = ingest {row_id m} (history (profile_storage pm))"
    by (simp add: mark_messages_ingested_def ingest_def)
  ultimately show ?case using Cons.IH[of ?pm1] by (simp add: ingest_ingest)
qed

lemma mark_all_calls [simp]: "calls (profile_storage (mark_all ms pm)) = calls (profile_storage pm)"
  by (induction ms arbitrary: pm) (auto simp: mark_all_def mark_messages_ingested_def)

text \<open>
  A group is marked as a whole or not at all: when \<open>process_messages\<close> returns, every
  message of the group is marked ingested; when it raises, the history table is as it
  was.
\<close>

lemma process_messages_marks:
  "(case process_messages env ms pm of
      Inr pm' \<Rightarrow>
        history (profile_storage pm') = ingest (row_id ` set ms) (history (profile_storage pm))
    | Inl (e, pm') \<Rightarrow> history (profile_storage pm') = history (profile_storage pm))"
proof (cases "ms = []")
  case True
  then show ?thesis by (simp add: process_messages_def)
next
  case False
  let ?first = "run_each (\<lambda>m. update_user_profile_think env m False) (butlast ms) pm"
  have f: "history (profile_storage (final ?first)) = history (profile_storage pm)"
    by (rule run_each_final) simp
  show ?thesis
  proof (cases ?first rule: result_cases)
    case (Raised e pm1)
    then show ?thesis using False f by (simp add: process_messages_def)
  next
    case (Returned pm1)
    then have h1: "history (profile_storage pm1) = history (profile_storage pm)" using f by simp
    have l: "history (profile_storage (final (update_user_profile_think env (last ms) True pm1)))
             = history (profile_storage pm)"
      using h1 by simp
    show ?thesis
    proof (cases "update_user_profile_think env (last ms) True pm1" rule: result_cases)
      case (Returned pm2)
      then show ?thesis using False \<open>?first = Inr pm1\<close> l
        by (simp add: process_messages_def mark_all_history)
    next
      case (Raised e pm2)
      then show ?thesis using False \<open>?first = Inr pm1\<close> l
        by (simp add: process_messages_def)
    qed
  qed
qed

lemma process_messages_returned:
  "process_messages env ms pm = Inr pm' \<Longrightarrow>
   history (profile_storage pm') = ingest (row_id ` set ms) (history (profile_storage pm))"
  using process_messages_marks[where env = env and ms = ms and pm = pm] by simp

lemma concat_groupby: "concat (groupby f xs) = xs"
  by (induction f xs rule: groupby.induct) auto

lemma gather_process_messages:
  "gather (process_messages env) groups pm = Inr pm' \<Longrightarrow>
   history (profile_storage pm') =
     ingest (row_id ` set (concat groups)) (history (profile_storage pm))"
proof (induction groups arbitrary: pm)
  case Nil
  then show ?case by simp
next
  case (Cons g groups)
  from Cons.prems obtain pm1 where 1: "process_messages env g pm = Inr pm1"
    and 2: "gather (process_messages env) groups pm1 = Inr pm'"
    unfolding gather_Inr_Cons by blast
  have "history (profile_storage pm1) = ingest (row_id ` set g) (history (profile_storage pm))"
    using 1 by (rule process_messages_returned)
  then show ?case using Cons.IH[OF 2] by (simp add: ingest_ingest image_Un)
qed

lemma process_uningested_memories_returned:
  assumes "process_uningested_memories env u pm = Inr pm'"
  shows "history (profile_storage pm') =
           ingest (row_id ` set (get_history_messages_by_ingestion_status u 100 False
                                   (profile_storage pm)))
             (history (profile_storage pm))"
  using gather_process_messages[of env "get_isolation_grouped_memories u pm" pm pm'] assms
  by (simp add: process_uningested_memories_def get_isolation_grouped_memories_def concat_groupby)

subsection \<open>When the language model is down\<close>

lemma update_user_profile_think_llm_error:
  assumes "generate_response env (update_prompt env) (prompt_for env m pm) = Inl e"
    and "caught e"
  shows "update_user_profile_think env m w pm = Inr (looked_up env m pm)"
  using assms
  by (simp add: update_user_profile_think_def prompt_for_def looked_up_def Let_def case_prod_beta)

lemma update_user_profile_think_llm_down:
  assumes "llm_down env"
  shows "update_user_profile_think env m w pm = Inr (looked_up env m pm)"
proof -
  obtain e where "generate_response env (update_prompt env) (prompt_for env m pm) = Inl e"
    and "caught e" using assms unfolding llm_down_def by blast
  then show ?thesis by (rule update_user_profile_think_llm_error)
qed

lemma process_messages_llm_down:
  assumes "llm_down env"
  shows "\<exists>pm'. process_messages env ms pm = Inr pm'"
proof (cases "ms = []")
  case True
  then show ?thesis by (simp add: process_messages_def)
next
  case False
  obtain pm1 where 1: "run_each (\<lambda>m. update_user_profile_think env m False) (butlast ms) pm = Inr pm1"
    using run_each_returns[of "butlast ms" "\<lambda>m. update_user_profile_think env m False" pm]
      update_user_profile_think_llm_down[OF assms] by blast
  show ?thesis using False 1 update_user_profile_think_llm_down[OF assms]
    by (simp add: process_messages_def)
qed

lemma process_uningested_memories_llm_down:
  assumes "llm_down env"
  shows "\<exists>pm'. process_uningested_memories env u pm = Inr pm'"
  unfolding process_uningested_memories_def
  by (rule gather_returns) (rule process_messages_llm_down[OF assms])
subsection \<open>Evaluating the definitions on concrete inputs\<close>

lemmas json_eval = json_dumps_def json_item_def json_string_def escape_char_def str_int_def
  decimal.simps

lemmas pm_eval =
  fresh_memory_def empty_storage_def demo_env_def section_entry_def failing_llm_def
  answering_llm_def outcome_def
  ProfileMemory_def add_persona_message_def add_history_def or_empty_def
  get_isolation_grouped_memories_def get_history_messages_by_ingestion_status_def key_fn_def
  process_uningested_memories_def process_messages_def update_user_profile_think_def
  get_user_profile_def profile_key_def user_prompt_of_def caught_def mark_all_def
  mark_messages_ingested_def deduplicate_profile_def apply_consolidation_def
  delete_unkept_def consolidate_one_def journal_def List.map_filter_def
  add_new_profile_def delete_user_profile_feature_def delete_user_profile_def Let_def
  extract_json_def removeprefix_def sublist_Cons_right moody_llm_def prompt_for_def
  looked_up_def after_think_def

subsection \<open>A message whose language model call fails\<close>

lemma update_user_profile_think_llm_uncaught:
  assumes "generate_response env (update_prompt env) (prompt_for env m pm) = Inl e"
    and "\<not> caught e"
  shows "update_user_profile_think env m w pm = Inl (e, looked_up env m pm)"
  using assms
  by (simp add: update_user_profile_think_def prompt_for_def looked_up_def Let_def case_prod_beta)

lemma extract_json_think:
  assumes "sublist ''<think>'' resp" "sublist ''</think>'' resp" "after_think resp \<noteq> []"
  shows "extract_json f resp = Inl UnboundLocalError"
  using assms by (simp add: extract_json_def after_think_def case_prod_beta)

lemma update_user_profile_think_unbound:
  assumes "generate_response env (update_prompt env) (prompt_for env m pm) = Inr resp"
    and "sublist ''<think>'' resp" "sublist ''</think>'' resp" "after_think resp \<noteq> []"
  shows "update_user_profile_think env m w pm = Inl (UnboundLocalError, looked_up env m pm)"
  using assms(1) extract_json_think[OF assms(2-4)]
  by (simp add: update_user_profile_think_def prompt_for_def looked_up_def Let_def case_prod_beta)

lemma process_messages_single:
  assumes "update_user_profile_think env m True pm = Inr pm1"
  shows "process_messages env [m] pm = Inr (mark_all [m] pm1)"
  using assms by (simp add: process_messages_def)

lemma pending_after_ingest:
  assumes "r \<in> set (get_history_messages_by_ingestion_status u k False st')"
    and "history st' = ingest ids h"
  shows "row_id r \<notin> ids"
proof -
  have "r \<in> set (filter (\<lambda>r. row_user_id r = u \<and> row_is_ingested r = False) (history st'))"
    using assms(1) by (auto simp: get_history_messages_by_ingestion_status_def Let_def
        split: if_splits dest: in_set_takeD)
  then have "r \<in> set (ingest ids h)" "\<not> row_is_ingested r" using assms(2) by auto
  then show ?thesis by (auto simp: ingest_def split: if_splits)
qed

text \<open>
  Claim C1, as amended. When the language model call for a message raises one of the
  three exceptions the code catches, \<open>_update_user_profile_think\<close> returns normally, having
  done no more than the profile lookup and written nothing to the storage; an exception
  of another class leaves it. Whether the message is then marked ingested is decided by
  its isolation group as a whole: when \<open>process_messages\<close> returns, every message of the
  group is marked, and when it raises, none is. So a message that is alone in its group
  is marked although its call failed; and when \<open>_process_uningested_memories\<close> returns,
  which it does whenever the language model is down for every call, every message it had
  fetched is marked and no later query for uningested messages returns it. An update
  that raises is what keeps a group unmarked: the language model raising another
  exception, or answering with \<open><think>\<close> tags and text after \<open></think>\<close>, upon which the
  code raises \<open>UnboundLocalError\<close>.
\<close>

theorem llm_error_message_marked_with_group:
  "(generate_response env (update_prompt env) (prompt_for env m pm) = Inl e \<and> caught e \<longrightarrow>
      update_user_profile_think env m w pm = Inr (looked_up env m pm) \<and>
      profile_storage (looked_up env m pm) = profile_storage pm \<and>
      process_messages env [m] pm = Inr (mark_all [m] (looked_up env m pm)) \<and>
      history (profile_storage (mark_all [m] (looked_up env m pm))) =
        ingest {row_id m} (history (profile_storage pm))) \<and>
   (generate_response env (update_prompt env) (prompt_for env m pm) = Inl e \<and> \<not> caught e \<longrightarrow>
      update_user_profile_think env m w pm = Inl (e, looked_up env m pm)) \<and>
   (generate_response env (update_prompt env) (prompt_for env m pm) = Inr resp \<and>
    sublist ''<think>'' resp \<and> sublist ''</think>'' resp \<and> after_think resp \<noteq> [] \<longrightarrow>
      update_user_profile_think env m w pm = Inl (UnboundLocalError, looked_up env m pm)) \<and>
   (case process_messages env ms pm of
      Inr pm' \<Rightarrow>
        history (profile_storage pm') = ingest (row_id ` set ms) (history (profile_storage pm))
    | Inl (e', pm') \<Rightarrow> history (profile_storage pm') = history (profile_storage pm)) \<and>
   (process_uningested_memories env u pm = Inr pm2 \<longrightarrow>
      history (profile_storage pm2) =
        ingest (row_id ` set (get_history_messages_by_ingestion_status u 100 False
                                (profile_storage pm)))
          (history (profile_storage pm)) \<and>
      (\<forall>r\<in>set (get_history_messages_by_ingestion_status u k False (profile_storage pm2)).
         row_id r \<notin> row_id ` set (get_history_messages_by_ingestion_status u 100 False
                                     (profile_storage pm)))) \<and>
   (llm_down env \<longrightarrow> (\<exists>pm3. process_uningested_memories env u pm = Inr pm3))"
proof -
  have a: "generate_response env (update_prompt env) (prompt_for env m pm) = Inl e \<and> caught e \<longrightarrow>
      update_user_profile_think env m w pm = Inr (looked_up env m pm) \<and>
      profile_storage (looked_up env m pm) = profile_storage pm \<and>
      process_messages env [m] pm = Inr (mark_all [m] (looked_up env m pm)) \<and>
      history (profile_storage (mark_all [m] (looked_up env m pm))) =
        ingest {row_id m} (history (profile_storage pm))"
    using update_user_profile_think_llm_error[of env m pm e]
      process_messages_single[of env m pm "looked_up env m pm"]
    by (simp add: mark_all_history)
  have b: "generate_response env (update_prompt env) (prompt_for env m pm) = Inl e \<and> \<not> caught e \<longrightarrow>
      update_user_profile_think env m w pm = Inl (e, looked_up env m pm)"
    using update_user_profile_think_llm_uncaught[of env m pm e w] by blast
  have c: "generate_response env (update_prompt env) (prompt_for env m pm) = Inr resp \<and>
    sublist ''<think>'' resp \<and> sublist ''</think>'' resp \<and> after_think resp \<noteq> [] \<longrightarrow>
      update_user_profile_think env m w pm = Inl (UnboundLocalError, looked_up env m pm)"
    using update_user_profile_think_unbound[of env m pm resp w] by blast
  note d = process_messages_marks[where env = env and ms = ms and pm = pm]
  have f: "process_uningested_memories env u pm = Inr pm2 \<longrightarrow>
      history (profile_storage pm2) =
        ingest (row_id ` set (get_history_messages_by_ingestion_status u 100 False
                                (profile_storage pm)))
          (history (profile_storage pm)) \<and>
      (\<forall>r\<in>set (get_history_messages_by_ingestion_status u k False (profile_storage pm2)).
         row_id r \<notin> row_id ` set (get_history_messages_by_ingestion_status u 100 False
                                     (profile_storage pm)))"
  proof
    assume "process_uningested_memories env u pm = Inr pm2"
    then have h: "history (profile_storage pm2) =
        ingest (row_id ` set (get_history_messages_by_ingestion_status u 100 False
                                (profile_storage pm)))
          (history (profile_storage pm))"
      by (rule process_uningested_memories_returned)
    then show "history (profile_storage pm2) =
        ingest (row_id ` set (get_history_messages_by_ingestion_status u 100 False
                                (profile_storage pm)))
          (history (profile_storage pm)) \<and>
      (\<forall>r\<in>set (get_history_messages_by_ingestion_status u k False (profile_storage pm2)).
         row_id r \<notin> row_id ` set (get_history_messages_by_ingestion_status u 100 False
                                     (profile_storage pm)))"
      using pending_after_ingest[OF _ h] by blast
  qed
  have g: "llm_down env \<longrightarrow> (\<exists>pm3. process_uningested_memories env u pm = Inr pm3)"
    using process_uningested_memories_llm_down[of env u pm] by blast
  show ?thesis using a b c d f g by (intro conjI)
qed

text \<open>
  The theorem on two runs. In the first the model raises \<open>RuntimeError\<close> on every call:
  one message \<open>hi\<close> of user \<open>u\<close> is added and the worker runs for \<open>u\<close>; the update returns
  normally and writes nothing; afterwards the message is marked ingested and is no longer
  pending. In the second the model is down for the message \<open>boom\<close> and answers the message
  \<open>hello\<close> of the same group with \<open><think>\<close> tags followed by JSON: the update of \<open>hello\<close>
  raises \<open>UnboundLocalError\<close>, which leaves the worker, and both messages stay pending.
\<close>

theorem llm_error_message_marked_with_group_witness:
  "llm_down (demo_env failing_llm JNull [] :: string env) \<and>
   generate_response (demo_env failing_llm JNull [] :: string env) ''update''
     (user_prompt_of ''profile'' ''hi'') = Inl RuntimeError \<and>
   caught RuntimeError \<and>
   outcome (calls \<circ> profile_storage)
     (update_user_profile_think (demo_env failing_llm JNull [])
        \<lparr>row_id = 1, row_user_id = ''u'', row_content = ''hi'', row_metadata = [],
         row_isolations = ''{}'', row_is_ingested = False\<rparr> False
        (add_persona_message 0 ''hi'' None None ''u'' fresh_memory)) = Inr [] \<and>
   get_history_messages_by_ingestion_status ''u'' 100 False
     (profile_storage (add_persona_message 0 ''hi'' None None ''u'' fresh_memory)) =
     [\<lparr>row_id = 1, row_user_id = ''u'', row_content = ''hi'', row_metadata = [],
       row_isolations = ''{}'', row_is_ingested = False\<rparr>] \<and>
   outcome (history \<circ> profile_storage)
     (process_uningested_memories (demo_env failing_llm JNull []) ''u''
        (add_persona_message 0 ''hi'' None None ''u'' fresh_memory)) =
     Inr [\<lparr>row_id = 1, row_user_id = ''u'', row_content = ''hi'', row_metadata = [],
           row_isolations = ''{}'', row_is_ingested = True\<rparr>] \<and>
   outcome (get_history_messages_by_ingestion_status ''u'' 0 False \<circ> profile_storage)
     (process_uningested_memories (demo_env failing_llm JNull []) ''u''
        (add_persona_message 0 ''hi'' None None ''u'' fresh_memory)) = Inr [] \<and>
   generate_response (demo_env moody_llm JNull [] :: string env) ''update''
     (user_prompt_of ''profile'' ''boom'') = Inl RuntimeError \<and>
   generate_response (demo_env moody_llm JNull [] :: string env) ''update''
     (user_prompt_of ''profile'' ''hello'') = Inr ''<think>nothing new</think>{}'' \<and>
   after_think ''<think>nothing new</think>{}'' = ''{}'' \<and>
   raised (update_user_profile_think (demo_env moody_llm JNull [])
        \<lparr>row_id = 2, row_user_id = ''u'', row_content = ''hello'', row_metadata = [],
         row_isolations = ''{}'', row_is_ingested = False\<rparr> True
        (add_persona_message 0 ''hello'' None None ''u''
           (add_persona_message 0 ''boom'' None None ''u'' fresh_memory))) =
     Some UnboundLocalError \<and>
   raised (process_uningested_memories (demo_env moody_llm JNull []) ''u''
        (add_persona_message 0 ''hello'' None None ''u''
           (add_persona_message 0 ''boom'' None None ''u'' fresh_memory))) =
     Some UnboundLocalError \<and>
   get_history_messages_by_ingestion_status ''u'' 0 False
     (profile_storage (final
        (process_uningested_memories (demo_env moody_llm JNull []) ''u''
           (add_persona_message 0 ''hello'' None None ''u''
              (add_persona_message 0 ''boom'' None None ''u'' fresh_memory))))) =
     [\<lparr>row_id = 1, row_user_id = ''u'', row_content = ''boom'', row_metadata = [],
       row_isolations = ''{}'', row_is_ingested = False\<rparr>,
      \<lparr>row_id = 2, row_user_id = ''u'', row_content = ''hello'', row_metadata = [],
       row_isolations = ''{}'', row_is_ingested = False\<rparr>]"
proof -
  let ?down = "demo_env failing_llm JNull [] :: string env"
  let ?moody = "demo_env moody_llm JNull [] :: string env"
  let ?hi = "\<lparr>row_id = 1, row_user_id = ''u'', row_content = ''hi'', row_metadata = [],
              row_isolations = ''{}'', row_is_ingested = False\<rparr>"
  let ?boom = "\<lparr>row_id = 1, row_user_id = ''u'', row_content = ''boom'', row_metadata = [],
                row_isolations = ''{}'', row_is_ingested = False\<rparr>"
  let ?hello = "\<lparr>row_id = 2, row_user_id = ''u'', row_content = ''hello'', row_metadata = [],
                 row_isolations = ''{}'', row_is_ingested = False\<rparr>"
  let ?A = "add_persona_message 0 ''hi'' None None ''u'' fresh_memory"
  let ?B = "add_persona_message 0 ''hello'' None None ''u''
              (add_persona_message 0 ''boom'' None None ''u'' fresh_memory)"
  have h: "llm_down ?down"
    by (simp add: llm_down_def demo_env_def failing_llm_def caught_def)
  have g1: "generate_response ?down ''update'' (user_prompt_of ''profile'' ''hi'') = Inl RuntimeError"
    by (simp add: demo_env_def failing_llm_def)
  have c: "caught RuntimeError" by (simp add: caught_def)
  have pA: "prompt_for ?down ?hi ?A = user_prompt_of ''profile'' ''hi''"
    by (simp add: pm_eval lru_eval)
  have uA: "update_prompt ?down = ''update''" by (simp add: demo_env_def)
  have fA: "get_history_messages_by_ingestion_status ''u'' 100 False (profile_storage ?A) = [?hi]"
    by (simp add: pm_eval json_eval)
  note th1 = llm_error_message_marked_with_group [where env = ?down and m = ?hi and pm = ?A
      and e = RuntimeError and w = False and u = "''u''" and k = 0]
  have t1: "update_user_profile_think ?down ?hi False ?A = Inr (looked_up ?down ?hi ?A)"
    and t2: "profile_storage (looked_up ?down ?hi ?A) = profile_storage ?A"
    using th1 g1 c unfolding pA uA by blast+
  have r1: "outcome (calls \<circ> profile_storage) (update_user_profile_think ?down ?hi False ?A) = Inr []"
    unfolding t1 by (simp add: outcome_def t2) (simp add: pm_eval)
  obtain pm3 where p3: "process_uningested_memories ?down ''u'' ?A = Inr pm3"
    using th1 h by blast
  note th1' = llm_error_message_marked_with_group [where env = ?down and m = ?hi and pm = ?A
      and e = RuntimeError and w = False and u = "''u''" and k = 0 and ?pm2.0 = pm3]
  have h3: "history (profile_storage pm3) = ingest (row_id ` set [?hi]) (history (profile_storage ?A))"
    and n3: "\<forall>r\<in>set (get_history_messages_by_ingestion_status ''u'' 0 False (profile_storage pm3)).
               row_id r \<notin> row_id ` set [?hi]"
    using th1' p3 unfolding fA by blast+
  have r2: "outcome (history \<circ> profile_storage) (process_uningested_memories ?down ''u'' ?A) =
      Inr [\<lparr>row_id = 1, row_user_id = ''u'', row_content = ''hi'', row_metadata = [],
            row_isolations = ''{}'', row_is_ingested = True\<rparr>]"
    unfolding p3 by (simp add: outcome_def h3) (simp add: pm_eval json_eval ingest_def)
  have "set (get_history_messages_by_ingestion_status ''u'' 0 False (profile_storage pm3)) \<subseteq>
        set (history (profile_storage pm3))"
    by (auto simp: get_history_messages_by_ingestion_status_def)
  also have "\<dots> = {?hi\<lparr>row_is_ingested := True\<rparr>}"
    unfolding h3 by (simp add: pm_eval json_eval ingest_def)
  finally have "get_history_messages_by_ingestion_status ''u'' 0 False (profile_storage pm3) = []"
    using n3 by (cases "get_history_messages_by_ingestion_status ''u'' 0 False (profile_storage pm3)")
      auto
  then have r3: "outcome (get_history_messages_by_ingestion_status ''u'' 0 False \<circ> profile_storage)
      (process_uningested_memories ?down ''u'' ?A) = Inr []"
    unfolding p3 by (simp add: outcome_def)
  have g2: "generate_response ?moody ''update'' (user_prompt_of ''profile'' ''boom'') = Inl RuntimeError"
    and g3: "generate_response ?moody ''update'' (user_prompt_of ''profile'' ''hello'') =
             Inr ''<think>nothing new</think>{}''"
    by (simp_all add: demo_env_def moody_llm_def user_prompt_of_def)
  have at: "after_think ''<think>nothing new</think>{}'' = ''{}''"
    by (simp add: after_think_def removeprefix_def)
  have pB: "prompt_for ?moody ?hello ?B = user_prompt_of ''profile'' ''hello''"
    by (simp add: pm_eval lru_eval)
  have uB: "update_prompt ?moody = ''update''" by (simp add: demo_env_def)
  note th2 = llm_error_message_marked_with_group [where env = ?moody and m = ?hello and pm = ?B
      and resp = "''<think>nothing new</think>{}''" and w = True and ms = "[?boom, ?hello]"]
  have s1: "sublist ''<think>'' ''<think>nothing new</think>{}''"
    and s2: "sublist ''</think>'' ''<think>nothing new</think>{}''"
    by (simp_all add: sublist_Cons_right)
  have t3: "update_user_profile_think ?moody ?hello True ?B =
      Inl (UnboundLocalError, looked_up ?moody ?hello ?B)"
    using th2 g3 s1 s2 at unfolding pB uB by simp
  have r4: "raised (update_user_profile_think ?moody ?hello True ?B) = Some UnboundLocalError"
    unfolding t3 by simp
  have gB: "get_isolation_grouped_memories ''u'' ?B = [[?boom, ?hello]]"
    by (simp add: pm_eval json_eval)
  have pm: "raised (process_messages ?moody [?boom, ?hello] ?B) = Some UnboundLocalError"
    by (simp add: pm_eval lru_eval)
  then obtain pm4 where p4: "process_messages ?moody [?boom, ?hello] ?B = Inl (UnboundLocalError, pm4)"
    by (cases "process_messages ?moody [?boom, ?hello] ?B" rule: result_cases) auto
  have h4: "history (profile_storage pm4) = history (profile_storage ?B)"
    using th2 unfolding p4 by simp
  have pu: "process_uningested_memories ?moody ''u'' ?B = Inl (UnboundLocalError, pm4)"
    by (simp add: process_uningested_memories_def gB p4)
  have r5: "raised (process_uningested_memories ?moody ''u'' ?B) = Some UnboundLocalError"
    unfolding pu by simp
  have r6: "get_history_messages_by_ingestion_status ''u'' 0 False
      (profile_storage (final (process_uningested_memories ?moody ''u'' ?B))) = [?boom, ?hello]"
    unfolding pu
    by (simp add: get_history_messages_by_ingestion_status_def h4) (simp add: pm_eval json_eval)
  show ?thesis
    using h g1 c r1 fA r2 r3 g2 g3 at r4 r5 r6 by (intro conjI)
qed

text \<open>
  Claim C1 as stated fails: the language model call for the message raises, and the
  message is marked ingested all the same; it is not among the uningested messages
  afterwards, so no later tick processes it again.
\<close>

theorem llm_error_counterexample:
  "generate_response (demo_env failing_llm JNull []) ''update''
     (user_prompt_of ''profile'' ''hi'') = Inl RuntimeError \<and>
   get_history_messages_by_ingestion_status ''u'' 0 False
     (profile_storage (add_persona_message 0 ''hi'' None None ''u'' fresh_memory)) =
     [\<lparr>row_id = 1, row_user_id = ''u'', row_content = ''hi'', row_metadata = [],
       row_isolations = ''{}'', row_is_ingested = False\<rparr>] \<and>
   outcome (get_history_messages_by_ingestion_status ''u'' 0 False \<circ> profile_storage)
     (process_uningested_memories (demo_env failing_llm JNull []) ''u''
        (add_persona_message 0 ''hi'' None None ''u'' fresh_memory)) = Inr []"
  by (simp add: pm_eval json_eval lru_eval)

subsection \<open>The content stored for a message\<close>

text \<open>
  Claim C10. \<open>add_persona_message\<close> appends one history row. When the metadata has a
  speaker \<open>sp\<close> the row's content is \<open>sp\<close>, the text \<open>sends\<close> and the content in single
  quotes; when the metadata has no speaker, or no metadata is given, it is the content
  unchanged.
\<close>

theorem add_persona_message_content:
  "(map_of md ''speaker'' = Some sp \<longrightarrow>
      map row_content (history (profile_storage
        (add_persona_message now c (Some md) isolations u pm))) =
      map row_content (history (profile_storage pm)) @
        [sp @ '' sends '' @ [CHR 0x27] @ c @ [CHR 0x27]]) \<and>
   (map_of md ''speaker'' = None \<longrightarrow>
      map row_content (history (profile_storage
        (add_persona_message now c (Some md) isolations u pm))) =
      map row_content (history (profile_storage pm)) @ [c]) \<and>
   map row_content (history (profile_storage (add_persona_message now c None isolations u pm))) =
     map row_content (history (profile_storage pm)) @ [c]"
  by (simp add: add_persona_message_def add_history_def or_empty_def Let_def)

theorem add_persona_message_content_witness:
  "map_of [(''speaker'', ''alice'')] ''speaker'' = Some ''alice'' \<and>
   map row_content (history (profile_storage
     (add_persona_message 0 ''hi'' (Some [(''speaker'', ''alice'')]) None ''u'' fresh_memory))) =
     [''alice sends '' @ [CHR 0x27] @ ''hi'' @ [CHR 0x27]] \<and>
   map_of [(''mood'', ''fine'')] ''speaker'' = None \<and>
   map row_content (history (profile_storage
     (add_persona_message 0 ''hi'' (Some [(''mood'', ''fine'')]) None ''u'' fresh_memory))) =
     [''hi'']"
  using add_persona_message_content [of "[(''speaker'', ''alice'')]" "''alice''" 0 "''hi''" None
          "''u''" fresh_memory]
        add_persona_message_content [of "[(''mood'', ''fine'')]" "''alice''" 0 "''hi''" None
          "''u''" fresh_memory]
  by (simp add: fresh_memory_def empty_storage_def)

subsection \<open>Cache invalidation\<close>

lemma erase_absent: "cache (erase k c) k = None"
  by (auto simp: erase_def)

text \<open>
  \<open>add_new_profile\<close> erases the cache entry before it calls the embedder, so the entry is
  absent whether the call returns or raises.
\<close>

lemma add_new_profile_invalidates:
  "cached_profile u (or_empty i) (final (add_new_profile env u f v t md i cit pm)) = None"
  by (simp add: cached_profile_def add_new_profile_def Let_def erase_absent
      split: sum.splits list.splits)

lemma delete_user_profile_feature_invalidates:
  "cached_profile u (or_empty i) (delete_user_profile_feature u f t v i pm) = None"
  by (simp add: cached_profile_def delete_user_profile_feature_def Let_def erase_absent)

lemma delete_user_profile_invalidates:
  "cached_profile u (or_empty i) (delete_user_profile u i pm) = None"
  by (simp add: cached_profile_def delete_user_profile_def Let_def erase_absent)

lemma erase_other: "k \<noteq> k' \<Longrightarrow> cache (erase k c) k' = cache c k'"
  by (auto simp: erase_def)

lemma delete_unkept_keeps_cache:
  "cached_profile u i (delete_unkept u' keep pm m) = cached_profile u i pm"
  by (simp add: cached_profile_def delete_unkept_def profile_key_def erase_other)

text \<open>
  Claim C3 fails on the code for the deletions of the consolidation pass.
  \<open>_deduplicate_profile\<close> calls \<open>erase(user_id)\<close>, but every cache key is a pair of the user
  and the serialised isolation map, so nothing is erased. Here one message of user \<open>u\<close>
  is ingested with consolidation; the update caches the profile of \<open>u\<close> under the empty
  isolation map, the language model keeps entries 1 to 4 of a section of five, entry 5
  is deleted in the storage, and the cache still answers with the profile read before
  the deletion.
\<close>

theorem consolidation_leaves_cache_entry:
  "outcome (calls \<circ> profile_storage)
     (update_user_profile_think
        (demo_env answering_llm
           (JDict [(''consolidate_memories'', JList []),
                   (''keep_memories'', JList [JInt 1, JInt 2, JInt 3, JInt 4])])
           [[section_entry 1, section_entry 2, section_entry 3, section_entry 4,
             section_entry 5]])
        \<lparr>row_id = 1, row_user_id = ''u'', row_content = ''hi'', row_metadata = [],
         row_isolations = ''{}'', row_is_ingested = False\<rparr> True
        (add_persona_message 0 ''hi'' None None ''u'' fresh_memory)) =
     Inr [DeleteProfileFeatureById 5] \<and>
   outcome (cached_profile ''u'' [])
     (update_user_profile_think
        (demo_env answering_llm
           (JDict [(''consolidate_memories'', JList []),
                   (''keep_memories'', JList [JInt 1, JInt 2, JInt 3, JInt 4])])
           [[section_entry 1, section_entry 2, section_entry 3, section_entry 4,
             section_entry 5]])
        \<lparr>row_id = 1, row_user_id = ''u'', row_content = ''hi'', row_metadata = [],
         row_isolations = ''{}'', row_is_ingested = False\<rparr> True
        (add_persona_message 0 ''hi'' None None ''u'' fresh_memory)) =
     Inr (Some ''profile'')"
  by (simp add: pm_eval json_eval lru_eval cached_profile_def)

subsection \<open>Which answers of the language model delete entries\<close>

lemma consolidate_one_deletes_nothing:
  "filter is_delete_by_id (calls (profile_storage (final (consolidate_one env u pm m)))) =
   filter is_delete_by_id (calls (profile_storage pm))"
  by (simp add: consolidate_one_def add_new_profile_def Let_def
      split: option.splits sum.splits list.splits)

lemma run_each_consolidate_one_deletes_nothing:
  "filter is_delete_by_id
     (calls (profile_storage (final (run_each (\<lambda>m pm. consolidate_one env u pm m) ms pm)))) =
   filter is_delete_by_id (calls (profile_storage pm))"
  by (rule run_each_final) (rule consolidate_one_deletes_nothing)

lemma foldl_delete_unkept_calls:
  "calls (profile_storage (foldl (delete_unkept u keep) pm ms)) =
   calls (profile_storage pm) @
     map (\<lambda>m. DeleteProfileFeatureById (memory_id m)) (filter (\<lambda>m. memory_id m \<notin> set keep) ms)"
  by (induction ms arbitrary: pm) (simp_all add: delete_unkept_def)

text \<open>
  When \<open>keep_memories\<close> is missing or not a list, or \<open>consolidate_memories\<close> is present
  and not a list, the pass deletes nothing.
\<close>

lemma keep_all_deletes_nothing:
  assumes "map_of d ''keep_memories'' = None \<or>
           (\<exists>x. map_of d ''keep_memories'' = Some x \<and> \<not> is_list x) \<or>
           (\<exists>x. map_of d ''consolidate_memories'' = Some x \<and> \<not> is_list x)"
  shows "filter is_delete_by_id
           (calls (profile_storage (final (apply_consolidation env u ms (JDict d) pm)))) =
         filter is_delete_by_id (calls (profile_storage pm))"
proof -
  have l: "\<not> is_list x \<Longrightarrow> (case x of JList xs \<Rightarrow> f xs | _ \<Rightarrow> g) = g" for x and f :: "json list \<Rightarrow> 'z" and g
    by (cases x) auto
  show ?thesis using assms
    by (auto simp: apply_consolidation_def Let_def run_each_consolidate_one_deletes_nothing l
        split: option.splits json.splits)
qed

text \<open>
  Claim C2 fails on the code when \<open>consolidate_memories\<close> is the missing key. The code
  replaces it by the empty list without setting \<open>keep_all_memories\<close>, as it does for the
  three sibling cases (\<open>keep_memories\<close> missing, either value not a list); so with a
  well-formed \<open>keep_memories\<close> every entry of the section that is not listed is deleted.
  With the answer \<open>{"keep_memories": [1]}\<close> on a section with entries 1 and 2,
  \<open>delete_profile_feature_by_id(2)\<close> is called.
\<close>

theorem missing_consolidate_memories_deletes:
  "outcome (calls \<circ> profile_storage)
     (apply_consolidation env u ms (JDict [(''keep_memories'', JList keep)]) pm) =
     Inr (calls (profile_storage pm) @
       map (\<lambda>m. DeleteProfileFeatureById (memory_id m))
         (filter (\<lambda>m. memory_id m \<notin> set (List.map_filter py_int keep)) ms)) \<and>
   outcome (calls \<circ> profile_storage)
     (deduplicate_profile
        (demo_env answering_llm (JDict [(''keep_memories'', JList [JInt 1])]) [])
        ''u'' [section_entry 1, section_entry 2] fresh_memory) =
     Inr [DeleteProfileFeatureById 2]"
proof -
  have "outcome (calls \<circ> profile_storage)
     (apply_consolidation env u ms (JDict [(''keep_memories'', JList keep)]) pm) =
     Inr (calls (profile_storage pm) @
       map (\<lambda>m. DeleteProfileFeatureById (memory_id m))
         (filter (\<lambda>m. memory_id m \<notin> set (List.map_filter py_int keep)) ms))"
    by (simp add: apply_consolidation_def outcome_def Let_def foldl_delete_unkept_calls)
  moreover have "outcome (calls \<circ> profile_storage)
     (deduplicate_profile
        (demo_env answering_llm (JDict [(''keep_memories'', JList [JInt 1])]) [])
        ''u'' [section_entry 1, section_entry 2] fresh_memory) =
     Inr [DeleteProfileFeatureById 2]"
    by (simp add: pm_eval lru_eval)
  ultimately show ?thesis by (intro conjI)
qed

subsection \<open>The cache key\<close>

lemma sort_key_canonical:
  assumes "distinct (map fst d1)" "distinct (map fst d2)" "set d1 = set d2"
  shows "sort_key fst d1 = sort_key fst d2"
proof (rule map_sorted_distinct_set_unique[where f = fst])
  show "inj_on fst (set (sort_key fst d1) \<union> set (sort_key fst d2))"
    using assms by (auto simp: inj_on_def dest: eq_key_imp_eq_value)
  show "distinct (map fst (sort_key fst d1))" "distinct (map fst (sort_key fst d2))"
    using assms by (simp_all add: distinct_map)
  show "set (sort_key fst d1) = set (sort_key fst d2)" using assms by simp
qed simp_all

text \<open>
  With \<open>sort_keys=True\<close> the serialisation does not depend on the insertion order.
\<close>

lemma json_dumps_sorted_canonical:
  "distinct (map fst d1) \<Longrightarrow> distinct (map fst d2) \<Longrightarrow> set d1 = set d2 \<Longrightarrow>
   json_dumps True d1 = json_dumps True d2"
  using sort_key_canonical[of d1 d2] by (simp add: json_dumps_def)

text \<open>
  Claim C9 fails on the code. Every operation that keys the cache serialises the
  isolation map with \<open>json.dumps(isolations)\<close>, without \<open>sort_keys=True\<close> (which only the
  grouping of history rows passes), so the key follows the insertion order. The maps
  \<open>{a: 1, b: 2}\<close> and \<open>{b: 2, a: 1}\<close> hold the same pairs and have the same canonical
  serialisation, but different cache keys; after a \<open>get_user_profile\<close> under the first,
  an \<open>add_new_profile\<close> under the second leaves the first's cache entry in place.
\<close>

theorem cache_key_follows_insertion_order:
  "set [(''a'', VInt 1), (''b'', VInt 2)] = set [(''b'', VInt 2), (''a'', VInt 1)] \<and>
   json_dumps True [(''a'', VInt 1), (''b'', VInt 2)] =
     json_dumps True [(''b'', VInt 2), (''a'', VInt 1)] \<and>
   profile_key ''u'' [(''a'', VInt 1), (''b'', VInt 2)] \<noteq>
     profile_key ''u'' [(''b'', VInt 2), (''a'', VInt 1)] \<and>
   outcome (cached_profile ''u'' [(''a'', VInt 1), (''b'', VInt 2)])
     (add_new_profile (demo_env answering_llm JNull []) ''u''
        (JStr ''likes'') (JStr ''dogs'') (JStr ''pets'') None
        (Some [(''b'', VInt 2), (''a'', VInt 1)]) None
        (snd (get_user_profile (demo_env answering_llm JNull []) ''u''
                (Some [(''a'', VInt 1), (''b'', VInt 2)]) fresh_memory))) =
     Inr (Some ''profile'')"
proof -
  have "set [(''a'', VInt 1), (''b'', VInt 2)] = set [(''b'', VInt 2), (''a'', VInt 1)]"
    by (simp add: insert_commute)
  moreover have "json_dumps True [(''a'', VInt 1), (''b'', VInt 2)] =
     json_dumps True [(''b'', VInt 2), (''a'', VInt 1)]"
    by (rule json_dumps_sorted_canonical) (simp_all add: insert_commute)
  moreover have "profile_key ''u'' [(''a'', VInt 1), (''b'', VInt 2)] \<noteq>
     profile_key ''u'' [(''b'', VInt 2), (''a'', VInt 1)]"
    by (simp add: profile_key_def json_eval)
  moreover have "outcome (cached_profile ''u'' [(''a'', VInt 1), (''b'', VInt 2)])
     (add_new_profile (demo_env answering_llm JNull []) ''u''
        (JStr ''likes'') (JStr ''dogs'') (JStr ''pets'') None
        (Some [(''b'', VInt 2), (''a'', VInt 1)]) None
        (snd (get_user_profile (demo_env answering_llm JNull []) ''u''
                (Some [(''a'', VInt 1), (''b'', VInt 2)]) fresh_memory))) =
     Inr (Some ''profile'')"
    by (simp add: pm_eval json_eval lru_eval cached_profile_def)
  ultimately show ?thesis by (intro conjI)
qed

end
